theory Spec2Isabelle
  imports Main "HOL-Library.Monad_Syntax" "HOL-Library.Multiset"
begin

section \<open>The tree locker of mulSongs.cpp\<close>

text \<open>
  The repository's lock manager is the C++ struct \<open>TreeLocker\<close>. Its state is
  two integers and three \<open>vector<int>\<close>. The model keeps the fields and their names.

  C++ \<open>int\<close> values are mathematical integers here. The only arithmetic on them is
  \<open>(i - 1) / m\<close>, \<open>1LL * u * m + 1\<close> (computed in \<open>long long\<close>) and
  \<open>descLocked[p] += delta\<close> with \<open>delta\<close> 1 or -1. One operation moves a counter by
  at most \<open>n\<close>, so the counters of a run stay in the range of \<open>int\<close> unless the run
  has more than \<open>2^31 / n\<close> operations; the overflow of a counter, which C++ leaves
  undefined, is outside the model.

  Reading or writing a vector outside its bounds is undefined behaviour in C++. The model
  makes it a value: every operation returns an \<open>option\<close>, and \<open>None\<close> stands for a
  run that leaves the defined behaviour of the program (or never returns).

  Every operation of mulSongs.cpp takes one spin lock on entry and releases it on every
  return. The operations are run one at a time here, so the spin lock is not modelled;
  neither are the queue and the worker thread that hand the queries to
  \<open>process_queries\<close> in the order of their arrival.
\<close>

record TreeLocker =
  n :: int
  m :: int
  parent :: "int list"
  lockedBy :: "int list"
  descLocked :: "int list"

definition vget :: "'a list \<Rightarrow> int \<Rightarrow> 'a option" where
  "vget xs i = (if 0 \<le> i \<and> i < int (length xs) then Some (xs ! nat i) else None)"

definition vset :: "'a list \<Rightarrow> int \<Rightarrow> 'a \<Rightarrow> 'a list option" where
  "vset xs i x = (if 0 \<le> i \<and> i < int (length xs) then Some (xs[nat i := x]) else None)"

text \<open>Integer division of C++ truncates towards zero; dividing by zero is undefined.\<close>

definition cdiv :: "int \<Rightarrow> int \<Rightarrow> int option" where
  "cdiv a b =
     (if b = 0 then None
      else if (a < 0) = (b < 0) then Some (\<bar>a\<bar> div \<bar>b\<bar>)
      else Some (- (\<bar>a\<bar> div \<bar>b\<bar>)))"

subsection \<open>Construction\<close>

text \<open>
  \<^verbatim>\<open>for (int i = 1; i < n; ++i) parent[i] = (i - 1) / m;\<close>
\<close>

function fill_parent :: "int \<Rightarrow> int \<Rightarrow> int \<Rightarrow> int list \<Rightarrow> int list option" where
  "fill_parent n' m' i ps =
     (if i < n' then
        do { q \<leftarrow> cdiv (i - 1) m';
             ps' \<leftarrow> vset ps i q;
             fill_parent n' m' (i + 1) ps' }
      else Some ps)"
  by pat_completeness auto
termination
  by (relation "measure (\<lambda>(n', m', i, ps). nat (n' - i))") auto

text \<open>
  The constructor. \<open>assign(n, x)\<close> with a negative \<open>n\<close> asks for more elements than a
  vector can hold and throws; the model returns \<open>None\<close>.
\<close>

definition newTreeLocker :: "int \<Rightarrow> int \<Rightarrow> TreeLocker option" where
  "newTreeLocker n' m' =
     (if n' < 0 then None
      else do {
        ps \<leftarrow> fill_parent n' m' 1 (replicate (nat n') (- 1));
        Some \<lparr> n = n', m = m', parent = ps,
               lockedBy = replicate (nat n') 0,
               descLocked = replicate (nat n') 0 \<rparr> })"

subsection \<open>The helpers that walk to the root\<close>

text \<open>
  \<^verbatim>\<open>int p = parent[v]; while (p != -1) { if (lockedBy[p] != 0) return true; p = parent[p]; }\<close>
  The loop follows the \<open>parent\<close> vector, so whether it ends depends on the vector's
  contents: it is a partial function, and not returning is \<open>None\<close>.
\<close>

partial_function (option) hasLockedAncestor_loop :: "TreeLocker \<Rightarrow> int \<Rightarrow> bool option" where
  "hasLockedAncestor_loop s p =
     (if p = - 1 then Some False
      else do {
        l \<leftarrow> vget (lockedBy s) p;
        if l \<noteq> 0 then Some True
        else do { p' \<leftarrow> vget (parent s) p; hasLockedAncestor_loop s p' } })"

declare hasLockedAncestor_loop.simps [code]

definition hasLockedAncestor :: "TreeLocker \<Rightarrow> int \<Rightarrow> bool option" where
  "hasLockedAncestor s v = do { p \<leftarrow> vget (parent s) v; hasLockedAncestor_loop s p }"

partial_function (option) updateAncestor_loop :: "TreeLocker \<Rightarrow> int \<Rightarrow> int \<Rightarrow> TreeLocker option" where
  "updateAncestor_loop s p delta =
     (if p = - 1 then Some s
      else do {
        d \<leftarrow> vget (descLocked s) p;
        ds \<leftarrow> vset (descLocked s) p (d + delta);
        p' \<leftarrow> vget (parent s) p;
        updateAncestor_loop (s\<lparr>descLocked := ds\<rparr>) p' delta })"

declare updateAncestor_loop.simps [code]

definition updateAncestorDescLockCount :: "TreeLocker \<Rightarrow> int \<Rightarrow> int \<Rightarrow> TreeLocker option" where
  "updateAncestorDescLockCount s v delta =
     do { p \<leftarrow> vget (parent s) v; updateAncestor_loop s p delta }"

subsection \<open>Lock and Unlock\<close>

definition lockNode :: "TreeLocker \<Rightarrow> int \<Rightarrow> int \<Rightarrow> (bool \<times> TreeLocker) option" where
  "lockNode s v uid =
     do {
       l \<leftarrow> vget (lockedBy s) v;
       if l \<noteq> 0 then Some (False, s)
       else do {
         a \<leftarrow> hasLockedAncestor s v;
         if a then Some (False, s)
         else do {
           d \<leftarrow> vget (descLocked s) v;
           if d \<noteq> 0 then Some (False, s)
           else do {
             ls \<leftarrow> vset (lockedBy s) v uid;
             s' \<leftarrow> updateAncestorDescLockCount (s\<lparr>lockedBy := ls\<rparr>) v 1;
             Some (True, s') } } } }"

definition unlockNode :: "TreeLocker \<Rightarrow> int \<Rightarrow> int \<Rightarrow> (bool \<times> TreeLocker) option" where
  "unlockNode s v uid =
     do {
       l \<leftarrow> vget (lockedBy s) v;
       if l \<noteq> uid then Some (False, s)
       else do {
         ls \<leftarrow> vset (lockedBy s) v 0;
         s' \<leftarrow> updateAncestorDescLockCount (s\<lparr>lockedBy := ls\<rparr>) v (- 1);
         Some (True, s') } }"

subsection \<open>Upgrade\<close>

text \<open>
  The \<open>for\<close> loop over the children of \<open>u\<close>, from \<open>j\<close> on. It returns
  \<open>canUpgrade\<close>, \<open>descendantsToUnlock\<close> and the stack \<open>nodesToVisit\<close> (its top is
  the head of the list). \<open>childIndex\<close> is a \<open>long long\<close>; the cast to \<open>int\<close> happens
  only below \<open>n\<close>, and after \<open>lockedBy[v]\<close> was read, so it changes no value.
\<close>

function scanChildren ::
  "TreeLocker \<Rightarrow> int \<Rightarrow> int \<Rightarrow> int \<Rightarrow> int list \<Rightarrow> int list \<Rightarrow> (bool \<times> int list \<times> int list) option" where
  "scanChildren s uid firstChild j descendantsToUnlock nodesToVisit =
     (if j < m s then
        (if firstChild + j \<ge> n s then Some (True, descendantsToUnlock, nodesToVisit)
         else do {
           l \<leftarrow> vget (lockedBy s) (firstChild + j);
           if l \<noteq> 0 then
             (if l \<noteq> uid then Some (False, descendantsToUnlock, nodesToVisit)
              else scanChildren s uid firstChild (j + 1)
                     (descendantsToUnlock @ [firstChild + j]) nodesToVisit)
           else do {
             d \<leftarrow> vget (descLocked s) (firstChild + j);
             if d > 0 then
               scanChildren s uid firstChild (j + 1)
                 descendantsToUnlock ((firstChild + j) # nodesToVisit)
             else scanChildren s uid firstChild (j + 1) descendantsToUnlock nodesToVisit } })
      else Some (True, descendantsToUnlock, nodesToVisit))"
  by pat_completeness auto
termination
  by (relation "measure (\<lambda>(s, uid, firstChild, j, ds, st). nat (m s - j))") auto

text \<open>The \<open>while (!nodesToVisit.empty())\<close> loop: the check-only phase.\<close>

partial_function (option) upgrade_visit ::
  "TreeLocker \<Rightarrow> int \<Rightarrow> int list \<Rightarrow> int list \<Rightarrow> (bool \<times> int list) option" where
  "upgrade_visit s uid nodesToVisit descendantsToUnlock =
     (case nodesToVisit of
        [] \<Rightarrow> Some (True, descendantsToUnlock)
      | u # rest \<Rightarrow>
          do {
            r \<leftarrow> scanChildren s uid (u * m s + 1) 0 descendantsToUnlock rest;
            if \<not> fst r then Some (False, fst (snd r))
            else upgrade_visit s uid (snd (snd r)) (fst (snd r)) })"

declare upgrade_visit.simps [code]

text \<open>
  \<^verbatim>\<open>for (int u : descendantsToUnlock) { lockedBy[u] = 0; updateAncestorDescLockCount(u, -1); }\<close>
\<close>

fun unlockAll :: "TreeLocker \<Rightarrow> int list \<Rightarrow> TreeLocker option" where
  "unlockAll s [] = Some s"
| "unlockAll s (u # us) =
     do {
       ls \<leftarrow> vset (lockedBy s) u 0;
       s' \<leftarrow> updateAncestorDescLockCount (s\<lparr>lockedBy := ls\<rparr>) u (- 1);
       unlockAll s' us }"

definition upgradeNode :: "TreeLocker \<Rightarrow> int \<Rightarrow> int \<Rightarrow> (bool \<times> TreeLocker) option" where
  "upgradeNode s v uid =
     do {
       l \<leftarrow> vget (lockedBy s) v;
       if l \<noteq> 0 then Some (False, s)
       else do {
         a \<leftarrow> hasLockedAncestor s v;
         if a then Some (False, s)
         else do {
           d \<leftarrow> vget (descLocked s) v;
           if d = 0 then Some (False, s)
           else do {
             r \<leftarrow> upgrade_visit s uid [v] [];
             if \<not> fst r then Some (False, s)
             else do {
               s1 \<leftarrow> unlockAll s (snd r);
               ls \<leftarrow> vset (lockedBy s1) v uid;
               s2 \<leftarrow> updateAncestorDescLockCount (s1\<lparr>lockedBy := ls\<rparr>) v 1;
               Some (True, s2) } } } } }"

subsection \<open>The dispatch of \<open>process_queries\<close>\<close>

text \<open>
  A query is \<open>(op, node_id, uid)\<close>. \<open>process_queries\<close> runs the queries in the order
  they were pushed and prints one boolean per query; the printed lines are the list of
  booleans here. An operation code other than 1, 2, 3 prints \<open>false\<close>.
\<close>

type_synonym Query = "int \<times> int \<times> int"

fun process_query :: "TreeLocker \<Rightarrow> Query \<Rightarrow> (bool \<times> TreeLocker) option" where
  "process_query s (opc, node_id, uid) =
     (if opc = 1 then lockNode s node_id uid
      else if opc = 2 then unlockNode s node_id uid
      else if opc = 3 then upgradeNode s node_id uid
      else Some (False, s))"

fun process_queries :: "TreeLocker \<Rightarrow> Query list \<Rightarrow> (bool list \<times> TreeLocker) option" where
  "process_queries s [] = Some ([], s)"
| "process_queries s (q # qs) =
     do {
       r \<leftarrow> process_query s q;
       rs \<leftarrow> process_queries (snd r) qs;
       Some (fst r # fst rs, snd rs) }"

section \<open>The tree and the properties of a state\<close>

text \<open>
  The tree is implicit in the indices: the parent of node \<open>i > 0\<close> is \<open>(i - 1) div m\<close>,
  node 0 is the root. \<open>ancestors M i\<close> lists the proper ancestors of \<open>i\<close>, nearest
  first; \<open>w\<close> is a descendant of \<open>v\<close> when \<open>v\<close> is among the ancestors of \<open>w\<close>.
\<close>

definition parent_of :: "nat \<Rightarrow> nat \<Rightarrow> nat" where
  "parent_of M i = (i - 1) div M"

function ancestors :: "nat \<Rightarrow> nat \<Rightarrow> nat list" where
  "ancestors M i = (if i = 0 then [] else parent_of M i # ancestors M (parent_of M i))"
  by pat_completeness auto
termination
  by (relation "measure snd") (auto simp: parent_of_def intro: le_less_trans [OF div_le_dividend])

text \<open>
  A well-formed state: the sizes and the \<open>parent\<close> vector are the ones the constructor
  builds from \<open>n\<close> and a branching factor \<open>m\<close> of at least 1; the other two vectors hold
  any values.
\<close>

definition parent_vector :: "nat \<Rightarrow> nat \<Rightarrow> int list" where
  "parent_vector N M = map (\<lambda>i. if i = 0 then - 1 else int (parent_of M i)) [0..<N]"

definition wellformed :: "TreeLocker \<Rightarrow> bool" where
  "wellformed s \<longleftrightarrow>
     0 \<le> n s \<and> 1 \<le> m s \<and>
     parent s = parent_vector (nat (n s)) (nat (m s)) \<and>
     length (lockedBy s) = nat (n s) \<and>
     length (descLocked s) = nat (n s)"

definition node_list :: "TreeLocker \<Rightarrow> nat list" where
  "node_list s = [0..<nat (n s)]"

definition ancestors_of :: "TreeLocker \<Rightarrow> nat \<Rightarrow> nat list" where
  "ancestors_of s v = ancestors (nat (m s)) v"

definition descendants_of :: "TreeLocker \<Rightarrow> nat \<Rightarrow> nat list" where
  "descendants_of s v = filter (\<lambda>w. v \<in> set (ancestors_of s w)) (node_list s)"

definition locked :: "TreeLocker \<Rightarrow> nat \<Rightarrow> bool" where
  "locked s v \<longleftrightarrow> lockedBy s ! v \<noteq> 0"

definition lockedDescendants :: "TreeLocker \<Rightarrow> nat \<Rightarrow> nat list" where
  "lockedDescendants s v = filter (locked s) (descendants_of s v)"

text \<open>\<open>add_at as delta ds\<close>: the counters \<open>ds\<close> with \<open>delta\<close> added at the nodes of \<open>as\<close>.\<close>

definition add_at :: "nat list \<Rightarrow> int \<Rightarrow> int list \<Rightarrow> int list" where
  "add_at as delta ds = map (\<lambda>k. if k \<in> set as then ds ! k + delta else ds ! k) [0..<length ds]"

text \<open>I1: a locked node has no locked ancestor and no locked descendant.\<close>

definition I1 :: "TreeLocker \<Rightarrow> bool" where
  "I1 s \<longleftrightarrow>
     (\<forall>v \<in> set (node_list s). locked s v \<longrightarrow>
        (\<forall>a \<in> set (ancestors_of s v). \<not> locked s a) \<and>
        (\<forall>w \<in> set (descendants_of s v). \<not> locked s w))"

text \<open>I2: every counter is the number of locked nodes strictly below its node.\<close>

definition I2 :: "TreeLocker \<Rightarrow> bool" where
  "I2 s \<longleftrightarrow> (\<forall>v \<in> set (node_list s). descLocked s ! v = int (length (lockedDescendants s v)))"

text \<open>
  The queries a claim speaks of: the operation code is 1 (Lock), 2 (Unlock) or 3 (Upgrade)
  and the node index is in \<open>[0, n)\<close>.
\<close>

definition valid_query :: "TreeLocker \<Rightarrow> Query \<Rightarrow> bool" where
  "valid_query s q \<longleftrightarrow>
     (case q of (opc, node_id, uid) \<Rightarrow> opc \<in> {1, 2, 3} \<and> 0 \<le> node_id \<and> node_id < n s)"

definition caller_of :: "Query \<Rightarrow> int" where
  "caller_of q = snd (snd q)"

text \<open>
  The states of the examples: the complete binary tree on 7 nodes of the spec's
  scenarios, and the tree of a root with two children.
\<close>

definition tree7 :: "int list \<Rightarrow> int list \<Rightarrow> TreeLocker" where
  "tree7 ls ds = \<lparr> n = 7, m = 2, parent = [- 1, 0, 0, 1, 1, 2, 2], lockedBy = ls, descLocked = ds \<rparr>"

definition tree3 :: "int list \<Rightarrow> int list \<Rightarrow> TreeLocker" where
  "tree3 ls ds = \<lparr> n = 3, m = 2, parent = [- 1, 0, 0], lockedBy = ls, descLocked = ds \<rparr>"

declare fill_parent.simps [simp del]

declare scanChildren.simps [simp del]

declare ancestors.simps [simp del]

section \<open>The tree locker of Song_M: one mutex per node\<close>

text \<open>
  \<open>Song_M\<close> holds a second \<open>TreeLocker\<close>, with the same fields and a
  \<open>vector<mutex> nodeMx\<close>, one mutex per node. Its constructor fills the fields as the
  one of mulSongs.cpp does, and its \<open>hasLockedAncestor\<close> is, token for token, the
  function above; the model uses \<open>newTreeLocker\<close> and \<open>hasLockedAncestor\<close> for both.
  Its operations are named with the suffix \<open>_M\<close> here.

  The mutexes are modelled for operations that run one at a time: a mutex is a boolean
  (held or free), every mutex is free when an operation starts, and the
  \<open>unique_lock\<close>s of an operation release what it holds when it returns or clears
  them. Locking a mutex the caller already holds never returns (\<open>None\<close>).
\<close>

partial_function (option) getPathToRoot_loop :: "TreeLocker \<Rightarrow> int \<Rightarrow> int list \<Rightarrow> int list option" where
  "getPathToRoot_loop s p path =
     (if p = - 1 then Some path
      else do { p' \<leftarrow> vget (parent s) p; getPathToRoot_loop s p' (path @ [p]) })"

declare getPathToRoot_loop.simps [code]










partial_function (option) addToAncestors_loop :: "TreeLocker \<Rightarrow> int \<Rightarrow> int \<Rightarrow> TreeLocker option" where
  "addToAncestors_loop s p delta =
     (if p = - 1 then Some s
      else do {
        d \<leftarrow> vget (descLocked s) p;
        ds \<leftarrow> vset (descLocked s) p (d + delta);
        p' \<leftarrow> vget (parent s) p;
        addToAncestors_loop (s\<lparr>descLocked := ds\<rparr>) p' delta })"

declare addToAncestors_loop.simps [code]









section \<open>The region a traversal reads\<close>

text \<open>
  The children of \<open>u\<close> are the indices the \<open>for\<close> loop of \<open>upgradeNode\<close> runs over:
  \<open>u * m + 1 + j\<close> for \<open>j < m\<close>, as far as they are below \<open>n\<close>.
\<close>

definition children_of :: "TreeLocker \<Rightarrow> nat \<Rightarrow> nat list" where
  "children_of s u =
     filter (\<lambda>c. c < nat (n s)) [u * nat (m s) + 1 ..< u * nat (m s) + 1 + nat (m s)]"

definition foreign :: "TreeLocker \<Rightarrow> int \<Rightarrow> nat \<Rightarrow> bool" where
  "foreign s uid c \<longleftrightarrow> lockedBy s ! c \<noteq> 0 \<and> lockedBy s ! c \<noteq> uid"

definition pushable :: "TreeLocker \<Rightarrow> nat \<Rightarrow> bool" where
  "pushable s c \<longleftrightarrow> \<not> locked s c \<and> descLocked s ! c > 0"

text \<open>
  \<open>scan_kids\<close> is the loop body of \<open>scanChildren\<close> as a recursion over the list of
  children, on natural numbers; \<open>scanChildren_spec\<close> below shows that the loop computes it.
\<close>

fun scan_kids ::
  "TreeLocker \<Rightarrow> int \<Rightarrow> nat list \<Rightarrow> nat list \<Rightarrow> nat list \<Rightarrow> bool \<times> nat list \<times> nat list" where
  "scan_kids s uid [] acc st = (True, acc, st)"
| "scan_kids s uid (c # cs) acc st =
     (if lockedBy s ! c \<noteq> 0 then
        (if lockedBy s ! c \<noteq> uid then (False, acc, st)
         else scan_kids s uid cs (acc @ [c]) st)
      else if descLocked s ! c > 0 then scan_kids s uid cs acc (c # st)
      else scan_kids s uid cs acc st)"

definition ints :: "bool \<times> nat list \<times> nat list \<Rightarrow> bool \<times> int list \<times> int list" where
  "ints r = (fst r, map int (fst (snd r)), map int (snd (snd r)))"

text \<open>
  \<open>reach s u x\<close>: the traversal of \<open>upgradeNode\<close>, with \<open>u\<close> on its stack, reads the
  node \<open>x\<close>. It reads the children of \<open>u\<close>, and goes on below a child that is unlocked
  and has a positive counter.
\<close>

inductive reach :: "TreeLocker \<Rightarrow> nat \<Rightarrow> nat \<Rightarrow> bool" for s :: TreeLocker where
  kid: "c \<in> set (children_of s u) \<Longrightarrow> reach s u c"
| down: "c \<in> set (children_of s u) \<Longrightarrow> pushable s c \<Longrightarrow> reach s c x \<Longrightarrow> reach s u x"

definition Reach :: "TreeLocker \<Rightarrow> nat list \<Rightarrow> nat set" where
  "Reach s st = {x. \<exists>u \<in> set st. reach s u x}"

text \<open>The order in which the stack of the traversal shrinks: a node is replaced by children.\<close>

definition kid_rel :: "nat \<Rightarrow> (nat \<times> nat) set" where
  "kid_rel N = {(c, u). u < c \<and> c < N}"

text \<open>
  The stack of the traversal holds nodes none of which is an ancestor of another, and no
  collected node lies below a node of the stack: so no node is collected twice.
\<close>

definition indep :: "TreeLocker \<Rightarrow> nat list \<Rightarrow> bool" where
  "indep s st \<longleftrightarrow> distinct st \<and> (\<forall>u \<in> set st. \<forall>w \<in> set st. u \<notin> set (ancestors_of s w))"

definition sep :: "TreeLocker \<Rightarrow> nat list \<Rightarrow> nat list \<Rightarrow> bool" where
  "sep s st acc \<longleftrightarrow> (\<forall>a \<in> set acc. \<forall>u \<in> set st. u \<notin> set (ancestors_of s a))"

text \<open>
  The commit phase of \<open>upgradeNode\<close> on the collected nodes \<open>acc\<close>: every one of them is
  unlocked and takes 1 from the counter of each of its ancestors; then \<open>v\<close> is locked
  and adds 1 to the counter of each of its ancestors.
\<close>

definition unlock_at :: "nat list \<Rightarrow> int list \<Rightarrow> int list" where
  "unlock_at acc ls = fold (\<lambda>u l. l[u := 0]) acc ls"

definition release_counts :: "TreeLocker \<Rightarrow> nat list \<Rightarrow> int list \<Rightarrow> int list" where
  "release_counts s acc ds = fold (\<lambda>u. add_at (ancestors_of s u) (- 1)) acc ds"

definition upgraded :: "TreeLocker \<Rightarrow> nat \<Rightarrow> int \<Rightarrow> nat list \<Rightarrow> TreeLocker" where
  "upgraded s v uid acc =
     s\<lparr>lockedBy := (unlock_at acc (lockedBy s))[v := uid],
       descLocked := add_at (ancestors_of s v) 1 (release_counts s acc (descLocked s))\<rparr>"

text \<open>The locked nodes strictly below \<open>k\<close>, as a set.\<close>

definition locked_below :: "TreeLocker \<Rightarrow> nat \<Rightarrow> nat set" where
  "locked_below s k = {w. w < nat (n s) \<and> k \<in> set (ancestors_of s w) \<and> locked s w}"

text \<open>
  The traversal of \<open>Song_M\<close> goes on below every child with a positive counter, locked
  or not: \<open>reachM s u x\<close> says that it reads \<open>x\<close> with \<open>u\<close> on its stack, as long as
  it meets no lock of another caller. \<open>scan_kids_M\<close> is the body of \<open>collect_scan\<close>.
\<close>

definition counted :: "TreeLocker \<Rightarrow> nat \<Rightarrow> bool" where
  "counted s c \<longleftrightarrow> descLocked s ! c > 0"

inductive reachM :: "TreeLocker \<Rightarrow> nat \<Rightarrow> nat \<Rightarrow> bool" for s :: TreeLocker where
  kid: "c \<in> set (children_of s u) \<Longrightarrow> reachM s u c"
| down: "c \<in> set (children_of s u) \<Longrightarrow> counted s c \<Longrightarrow> reachM s c x \<Longrightarrow> reachM s u x"

definition ReachM :: "TreeLocker \<Rightarrow> nat list \<Rightarrow> nat set" where
  "ReachM s st = {x. \<exists>u \<in> set st. reachM s u x}"


text \<open>
  \<open>between s w x y\<close>: \<open>y\<close> lies on the way from \<open>w\<close> down to \<open>x\<close>, \<open>w\<close> included and
  \<open>x\<close> not. The invariant \<open>K\<close>: between a locked node and a locked node below it there
  is a node whose counter is not positive. It holds in every state the operations reach,
  whatever the caller ids, and it is what makes the two traversals agree.
\<close>

definition between :: "TreeLocker \<Rightarrow> nat \<Rightarrow> nat \<Rightarrow> nat \<Rightarrow> bool" where
  "between s w x y \<longleftrightarrow> y = w \<or> (y \<in> set (ancestors_of s x) \<and> w \<in> set (ancestors_of s y))"

definition K :: "TreeLocker \<Rightarrow> bool" where
  "K s \<longleftrightarrow>
     (\<forall>x \<in> set (node_list s). \<forall>w \<in> set (ancestors_of s x).
        locked s w \<and> locked s x \<longrightarrow> (\<exists>y \<in> set (node_list s). between s w x y \<and> descLocked s ! y \<le> 0))"


section \<open>Basic facts\<close>

lemma vget_int [simp]: "vget xs (int i) = (if i < length xs then Some (xs ! i) else None)"
  by (simp add: vget_def)

lemma vset_int [simp]: "vset xs (int i) x = (if i < length xs then Some (xs[i := x]) else None)"
  by (simp add: vset_def)

lemma vget_0 [simp]: "vget xs 0 = (if 0 < length xs then Some (xs ! 0) else None)"
  by (simp add: vget_def)

lemma vset_0 [simp]: "vset xs 0 x = (if 0 < length xs then Some (xs[0 := x]) else None)"
  by (simp add: vset_def)

lemma parent_of_less: "0 < i \<Longrightarrow> parent_of M i < i"
  by (simp add: parent_of_def le_less_trans [OF div_le_dividend])

lemma ancestors_0 [simp]: "ancestors M 0 = []"
  by (simp add: ancestors.simps)

lemma ancestors_pos: "0 < i \<Longrightarrow> ancestors M i = parent_of M i # ancestors M (parent_of M i)"
  by (subst ancestors.simps) simp

lemma ancestors_less: "a \<in> set (ancestors M i) \<Longrightarrow> a < i"
proof (induction i arbitrary: a rule: less_induct)
  case (less i)
  show ?case
  proof (cases "i = 0")
    case True
    with less.prems show ?thesis by simp
  next
    case False
    then have pos: "0 < i" by simp
    from less.prems pos have "a = parent_of M i \<or> a \<in> set (ancestors M (parent_of M i))"
      by (simp add: ancestors_pos)
    then show ?thesis
      using less.IH [OF parent_of_less [OF pos]] parent_of_less [OF pos, of M]
      by (auto intro: less_trans)
  qed
qed

lemma cdiv_nat: "1 \<le> M \<Longrightarrow> 1 \<le> i \<Longrightarrow> cdiv (i - 1) M = Some (int (parent_of (nat M) (nat i)))"
  by (simp add: cdiv_def parent_of_def zdiv_int nat_diff_distrib)

lemma fill_parent_spec:
  "1 \<le> M \<Longrightarrow> 1 \<le> i \<Longrightarrow> length ps = nat N \<Longrightarrow>
   fill_parent N M i ps =
     Some (map (\<lambda>k. if nat i \<le> k then int (parent_of (nat M) k) else ps ! k) [0..<nat N])"
proof (induction N M i ps rule: fill_parent.induct)
  case (1 N M i ps)
  show ?case
  proof (cases "i < N")
    case True
    let ?q = "int (parent_of (nat M) (nat i))"
    have q: "cdiv (i - 1) M = Some ?q"
      using "1.prems" by (simp add: cdiv_nat)
    have v: "vset ps i ?q = Some (ps[nat i := ?q])"
      using "1.prems" True by (simp add: vset_def)
    have ih: "fill_parent N M (i + 1) (ps[nat i := ?q]) =
        Some (map (\<lambda>k. if nat (i + 1) \<le> k then int (parent_of (nat M) k) else ps[nat i := ?q] ! k) [0..<nat N])"
      using "1.IH" [OF True q v] "1.prems" by simp
    have "fill_parent N M i ps = fill_parent N M (i + 1) (ps[nat i := ?q])"
      using True q v by (subst fill_parent.simps) simp
    also note ih
    also have "map (\<lambda>k. if nat (i + 1) \<le> k then int (parent_of (nat M) k) else ps[nat i := ?q] ! k) [0..<nat N]
        = map (\<lambda>k. if nat i \<le> k then int (parent_of (nat M) k) else ps ! k) [0..<nat N]"
    proof -
      have s: "nat (i + 1) = Suc (nat i)" using "1.prems" by simp
      have "(if Suc (nat i) \<le> k then int (parent_of (nat M) k) else ps[nat i := ?q] ! k)
          = (if nat i \<le> k then int (parent_of (nat M) k) else ps ! k)" if "k < nat N" for k
      proof -
        consider "k < nat i" | "k = nat i" | "nat i < k" by linarith
        then show ?thesis
          using that "1.prems" by cases simp_all
      qed
      then show ?thesis unfolding s by simp
    qed
    finally show ?thesis .
  next
    case False
    then have "fill_parent N M i ps = Some ps"
      by (subst fill_parent.simps) simp
    moreover have "map (\<lambda>k. if nat i \<le> k then int (parent_of (nat M) k) else ps ! k) [0..<nat N] = ps"
      using False "1.prems" by (auto intro!: nth_equalityI)
    ultimately show ?thesis by simp
  qed
qed

lemma newTreeLocker_spec:
  assumes "0 \<le> N" "1 \<le> M"
  shows "newTreeLocker N M =
     Some \<lparr> n = N, m = M, parent = parent_vector (nat N) (nat M),
            lockedBy = replicate (nat N) 0, descLocked = replicate (nat N) 0 \<rparr>"
proof -
  have "fill_parent N M 1 (replicate (nat N) (- 1)) =
      Some (map (\<lambda>k. if nat 1 \<le> k then int (parent_of (nat M) k) else replicate (nat N) (- 1) ! k) [0..<nat N])"
    using assms by (intro fill_parent_spec) simp_all
  also have "map (\<lambda>k. if nat 1 \<le> k then int (parent_of (nat M) k) else replicate (nat N) (- 1) ! k) [0..<nat N]
     = map (\<lambda>i. if i = 0 then - 1 else int (parent_of (nat M) i)) [0..<nat N]"
    by auto
  finally show ?thesis using assms by (simp add: newTreeLocker_def parent_vector_def)
qed

lemma newTreeLocker_wellformed:
  "0 \<le> N \<Longrightarrow> 1 \<le> M \<Longrightarrow> newTreeLocker N M = Some s \<Longrightarrow> wellformed s"
  by (auto simp: newTreeLocker_spec wellformed_def)


lemma wellformed_updI:
  "wellformed s \<Longrightarrow> length ls = nat (n s) \<Longrightarrow> length ds = nat (n s) \<Longrightarrow>
   wellformed (s\<lparr>lockedBy := ls, descLocked := ds\<rparr>)"
  by (simp add: wellformed_def)

lemma wellformed_parent:
  "wellformed s \<Longrightarrow> i < nat (n s) \<Longrightarrow>
   vget (parent s) (int i) = Some (if i = 0 then - 1 else int (parent_of (nat (m s)) i))"
  by (simp add: wellformed_def parent_vector_def)

lemma ancestors_of_upd [simp]:
  "ancestors_of (s\<lparr>lockedBy := ls\<rparr>) = ancestors_of s"
  "ancestors_of (s\<lparr>descLocked := ds\<rparr>) = ancestors_of s"
  by (simp_all add: ancestors_of_def fun_eq_iff)

lemma hasLockedAncestor_loop_root [simp]: "hasLockedAncestor_loop s (- 1) = Some False"
  by (subst hasLockedAncestor_loop.simps) simp

lemma hasLockedAncestor_loop_spec:
  assumes wf: "wellformed s"
  shows "i < nat (n s) \<Longrightarrow>
    hasLockedAncestor_loop s (int i) = Some (locked s i \<or> (\<exists>a \<in> set (ancestors_of s i). locked s a))"
proof (induction i rule: less_induct)
  case (less i)
  have len: "length (lockedBy s) = nat (n s)" using wf by (simp add: wellformed_def)
  show ?case
  proof (cases "locked s i")
    case True
    then show ?thesis
      using less.prems len
      by (subst hasLockedAncestor_loop.simps) (simp add: locked_def)
  next
    case unl: False
    show ?thesis
    proof (cases "i = 0")
      case True
      then show ?thesis
        using less.prems len unl wellformed_parent [OF wf less.prems]
        by (subst hasLockedAncestor_loop.simps) (simp add: locked_def ancestors_of_def)
    next
      case False
      then have pos: "0 < i" by simp
      let ?p = "parent_of (nat (m s)) i"
      have p: "?p < i" using pos by (rule parent_of_less)
      then have pn: "?p < nat (n s)" using less.prems by simp
      have "hasLockedAncestor_loop s (int i) = hasLockedAncestor_loop s (int ?p)"
        using less.prems len unl wellformed_parent [OF wf less.prems] False
        by (subst hasLockedAncestor_loop.simps) (simp add: locked_def)
      also have "\<dots> = Some (locked s ?p \<or> (\<exists>a \<in> set (ancestors_of s ?p). locked s a))"
        by (rule less.IH [OF p pn])
      finally show ?thesis
        using unl pos by (simp add: ancestors_of_def ancestors_pos)
    qed
  qed
qed

lemma hasLockedAncestor_spec:
  assumes wf: "wellformed s" and i: "i < nat (n s)"
  shows "hasLockedAncestor s (int i) = Some (\<exists>a \<in> set (ancestors_of s i). locked s a)"
proof (cases "i = 0")
  case True
  then show ?thesis
    using wellformed_parent [OF wf i] by (simp add: hasLockedAncestor_def ancestors_of_def)
next
  case False
  then have pos: "0 < i" by simp
  let ?p = "parent_of (nat (m s)) i"
  have pn: "?p < nat (n s)" using parent_of_less [OF pos, of "nat (m s)"] i by simp
  show ?thesis
    using wellformed_parent [OF wf i] False hasLockedAncestor_loop_spec [OF wf pn] pos
    by (simp add: hasLockedAncestor_def ancestors_of_def ancestors_pos)
qed


lemma length_add_at [simp]: "length (add_at as delta ds) = length ds"
  by (simp add: add_at_def)

lemma nth_add_at:
  "k < length ds \<Longrightarrow> add_at as delta ds ! k = (if k \<in> set as then ds ! k + delta else ds ! k)"
  by (simp add: add_at_def)

lemma add_at_Nil [simp]: "add_at [] delta ds = ds"
  by (auto simp: add_at_def intro!: nth_equalityI)

lemma add_at_Cons:
  "i < length ds \<Longrightarrow> i \<notin> set as \<Longrightarrow>
   add_at as delta (ds[i := ds ! i + delta]) = add_at (i # as) delta ds"
  by (rule nth_equalityI) (auto simp: nth_add_at nth_list_update)

lemma updateAncestor_loop_root [simp]: "updateAncestor_loop s (- 1) delta = Some s"
  by (subst updateAncestor_loop.simps) simp

lemma wellformed_descLocked:
  "wellformed s \<Longrightarrow> length ds = nat (n s) \<Longrightarrow> wellformed (s\<lparr>descLocked := ds\<rparr>)"
  by (simp add: wellformed_def)

lemma wellformed_lockedBy:
  "wellformed s \<Longrightarrow> length ls = nat (n s) \<Longrightarrow> wellformed (s\<lparr>lockedBy := ls\<rparr>)"
  by (simp add: wellformed_def)

lemma updateAncestor_loop_spec:
  "wellformed s \<Longrightarrow> i < nat (n s) \<Longrightarrow>
   updateAncestor_loop s (int i) delta =
     Some (s\<lparr>descLocked := add_at (i # ancestors_of s i) delta (descLocked s)\<rparr>)"
proof (induction i arbitrary: s rule: less_induct)
  case (less i)
  note wf = less.prems(1) and i = less.prems(2)
  have len: "length (descLocked s) = nat (n s)" using wf by (simp add: wellformed_def)
  let ?ds = "(descLocked s)[i := descLocked s ! i + delta]"
  let ?s = "s\<lparr>descLocked := ?ds\<rparr>"
  have wf': "wellformed ?s" using wf len by (simp add: wellformed_descLocked)
  show ?case
  proof (cases "i = 0")
    case True
    have "updateAncestor_loop s (int i) delta = Some ?s"
      using i len wellformed_parent [OF wf i] True
      by (subst updateAncestor_loop.simps) simp
    moreover have "add_at (i # ancestors_of s i) delta (descLocked s) = ?ds"
      using True i len by (simp add: ancestors_of_def add_at_Cons [symmetric])
    ultimately show ?thesis by simp
  next
    case False
    then have pos: "0 < i" by simp
    let ?p = "parent_of (nat (m s)) i"
    have p: "?p < i" using pos by (rule parent_of_less)
    then have pn: "?p < nat (n ?s)" using i by simp
    have "updateAncestor_loop s (int i) delta = updateAncestor_loop ?s (int ?p) delta"
      using i len wellformed_parent [OF wf i] False
      by (subst updateAncestor_loop.simps) simp
    also have "\<dots> = Some (?s\<lparr>descLocked := add_at (?p # ancestors_of ?s ?p) delta (descLocked ?s)\<rparr>)"
      by (rule less.IH [OF p wf' pn])
    also have "add_at (?p # ancestors_of ?s ?p) delta (descLocked ?s)
        = add_at (i # ancestors_of s i) delta (descLocked s)"
    proof -
      have "i \<notin> set (?p # ancestors (nat (m s)) ?p)"
        using p ancestors_less [of i "nat (m s)" ?p] by auto
      then show ?thesis
        using i len pos by (simp add: ancestors_of_def ancestors_pos add_at_Cons)
    qed
    finally show ?thesis by simp
  qed
qed

lemma updateAncestorDescLockCount_spec:
  assumes wf: "wellformed s" and i: "i < nat (n s)"
  shows "updateAncestorDescLockCount s (int i) delta =
     Some (s\<lparr>descLocked := add_at (ancestors_of s i) delta (descLocked s)\<rparr>)"
proof (cases "i = 0")
  case True
  then show ?thesis
    using wellformed_parent [OF wf i]
    by (simp add: updateAncestorDescLockCount_def ancestors_of_def)
next
  case False
  then have pos: "0 < i" by simp
  let ?p = "parent_of (nat (m s)) i"
  have pn: "?p < nat (n s)" using parent_of_less [OF pos, of "nat (m s)"] i by simp
  show ?thesis
    using wellformed_parent [OF wf i] False updateAncestor_loop_spec [OF wf pn] pos
    by (simp add: updateAncestorDescLockCount_def ancestors_of_def ancestors_pos)
qed

lemma lockNode_spec:
  assumes wf: "wellformed s" and v: "v < nat (n s)"
  shows "lockNode s (int v) uid =
    (if locked s v \<or> (\<exists>a \<in> set (ancestors_of s v). locked s a) \<or> descLocked s ! v \<noteq> 0
     then Some (False, s)
     else Some (True, s\<lparr>lockedBy := (lockedBy s)[v := uid],
                        descLocked := add_at (ancestors_of s v) 1 (descLocked s)\<rparr>))"
proof -
  have len: "length (lockedBy s) = nat (n s)" "length (descLocked s) = nat (n s)"
    using wf by (simp_all add: wellformed_def)
  have wf': "wellformed (s\<lparr>lockedBy := (lockedBy s)[v := uid]\<rparr>)"
    using wf len by (simp add: wellformed_lockedBy)
  show ?thesis
    using v len hasLockedAncestor_spec [OF wf v] updateAncestorDescLockCount_spec [OF wf', of v 1]
    by (simp add: lockNode_def locked_def)
qed

lemma unlockNode_spec:
  assumes wf: "wellformed s" and v: "v < nat (n s)"
  shows "unlockNode s (int v) uid =
    (if lockedBy s ! v \<noteq> uid then Some (False, s)
     else Some (True, s\<lparr>lockedBy := (lockedBy s)[v := 0],
                        descLocked := add_at (ancestors_of s v) (- 1) (descLocked s)\<rparr>))"
proof -
  have len: "length (lockedBy s) = nat (n s)" "length (descLocked s) = nat (n s)"
    using wf by (simp_all add: wellformed_def)
  have wf': "wellformed (s\<lparr>lockedBy := (lockedBy s)[v := 0]\<rparr>)"
    using wf len by (simp add: wellformed_lockedBy)
  show ?thesis
    using v len updateAncestorDescLockCount_spec [OF wf', of v "- 1"]
    by (simp add: unlockNode_def)
qed

lemma ancestors_of_less: "a \<in> set (ancestors_of s v) \<Longrightarrow> a < v"
  by (auto simp: ancestors_of_def dest: ancestors_less)

lemma not_in_own_ancestors: "v \<notin> set (ancestors_of s v)"
  using ancestors_of_less [of v s v] by auto

section \<open>The traversal of Upgrade\<close>

lemma kids_arith:
  fixes M :: nat
  assumes "0 < M"
  shows "(u * M + 1 \<le> c \<and> c < u * M + 1 + M) \<longleftrightarrow> (0 < c \<and> (c - 1) div M = u)"
proof
  assume a: "u * M + 1 \<le> c \<and> c < u * M + 1 + M"
  then have "M * u \<le> c - 1" "c - 1 < M * Suc u" by (auto simp: mult.commute)
  then have "(c - 1) div M = u" by (rule div_nat_eqI)
  with a show "0 < c \<and> (c - 1) div M = u" by simp
next
  assume b: "0 < c \<and> (c - 1) div M = u"
  define q where "q = (c - 1) div M * M"
  have "q \<le> c - 1" unfolding q_def by (rule div_times_less_eq_dividend)
  moreover have "c - 1 < M + q" unfolding q_def using assms by (rule dividend_less_div_times)
  moreover have "u * M = q" using b by (simp add: q_def)
  ultimately show "u * M + 1 \<le> c \<and> c < u * M + 1 + M" using b by linarith
qed

lemma children_of_iff:
  assumes "wellformed s"
  shows "c \<in> set (children_of s u) \<longleftrightarrow> c < nat (n s) \<and> 0 < c \<and> parent_of (nat (m s)) c = u"
proof -
  have M: "0 < nat (m s)" using assms by (simp add: wellformed_def)
  show ?thesis
    using kids_arith [OF M, of u c] by (auto simp: children_of_def parent_of_def)
qed

lemma distinct_children_of [simp]: "distinct (children_of s u)"
  by (simp add: children_of_def)

lemma child_ancestors:
  assumes "wellformed s" and "c \<in> set (children_of s u)"
  shows "ancestors_of s c = u # ancestors_of s u"
  using assms by (simp add: children_of_iff ancestors_of_def ancestors_pos)

lemma child_greater:
  assumes "wellformed s" and "c \<in> set (children_of s u)"
  shows "u < c" "c < nat (n s)"
  using assms parent_of_less [of c "nat (m s)"] by (auto simp: children_of_iff)

lemma ancestors_trans:
  "a \<in> set (ancestors M x) \<Longrightarrow> b \<in> set (ancestors M a) \<Longrightarrow> b \<in> set (ancestors M x)"
proof (induction x rule: less_induct)
  case (less x)
  from less.prems(1) have pos: "0 < x" by (cases "x = 0") simp_all
  let ?p = "parent_of M x"
  from less.prems(1) pos have "a = ?p \<or> a \<in> set (ancestors M ?p)"
    by (simp add: ancestors_pos)
  then show ?case
  proof
    assume "a = ?p"
    with less.prems(2) pos show ?thesis by (simp add: ancestors_pos)
  next
    assume "a \<in> set (ancestors M ?p)"
    then have "b \<in> set (ancestors M ?p)"
      using less.IH [OF parent_of_less [OF pos]] less.prems(2) by blast
    with pos show ?thesis by (simp add: ancestors_pos)
  qed
qed

lemma ancestors_of_trans:
  "a \<in> set (ancestors_of s x) \<Longrightarrow> b \<in> set (ancestors_of s a) \<Longrightarrow> b \<in> set (ancestors_of s x)"
  unfolding ancestors_of_def by (rule ancestors_trans)

text \<open>The child of an ancestor on the way down to a node.\<close>

lemma ancestor_via_child:
  "v \<in> set (ancestors M x) \<Longrightarrow>
   \<exists>c. 0 < c \<and> parent_of M c = v \<and> (c = x \<or> c \<in> set (ancestors M x))"
proof (induction x rule: less_induct)
  case (less x)
  from less.prems have pos: "0 < x" by (cases "x = 0") simp_all
  let ?p = "parent_of M x"
  from less.prems pos have "v = ?p \<or> v \<in> set (ancestors M ?p)"
    by (simp add: ancestors_pos)
  then show ?case
  proof
    assume "v = ?p"
    with pos show ?thesis by blast
  next
    assume "v \<in> set (ancestors M ?p)"
    from less.IH [OF parent_of_less [OF pos] this] obtain c where
      "0 < c" "parent_of M c = v" "c = ?p \<or> c \<in> set (ancestors M ?p)" by blast
    with pos show ?thesis by (auto simp: ancestors_pos)
  qed
qed

lemma reach_below:
  assumes "wellformed s"
  shows "reach s u x \<Longrightarrow> u \<in> set (ancestors_of s x) \<and> x < nat (n s)"
proof (induction rule: reach.induct)
  case (kid c u)
  then show ?case using assms by (simp add: child_ancestors child_greater)
next
  case (down c u x)
  have "u \<in> set (ancestors_of s c)" using assms down.hyps(1) by (simp add: child_ancestors)
  with down.IH show ?case by (blast intro: ancestors_of_trans)
qed

lemma reach_unfold:
  "reach s u x \<longleftrightarrow>
     x \<in> set (children_of s u) \<or> (\<exists>c \<in> set (children_of s u). pushable s c \<and> reach s c x)"
  by (auto elim: reach.cases intro: reach.intros)

lemma Reach_Nil [simp]: "Reach s [] = {}"
  by (simp add: Reach_def)

lemma Reach_append: "Reach s (xs @ ys) = Reach s xs \<union> Reach s ys"
  by (auto simp: Reach_def)

lemma Reach_Cons:
  "Reach s (u # rest) =
     set (children_of s u) \<union> Reach s (rev (filter (pushable s) (children_of s u))) \<union> Reach s rest"
proof -
  have "{x. reach s u x} =
      set (children_of s u) \<union> Reach s (rev (filter (pushable s) (children_of s u)))"
    by (subst reach_unfold) (auto simp: Reach_def)
  then show ?thesis by (auto simp: Reach_def)
qed

lemma scan_kids_ok:
  "\<forall>c \<in> set cs. \<not> foreign s uid c \<Longrightarrow>
   scan_kids s uid cs acc st =
     (True, acc @ filter (locked s) cs, rev (filter (pushable s) cs) @ st)"
  by (induction cs arbitrary: acc st) (auto simp: foreign_def locked_def pushable_def)

lemma scan_kids_fail:
  "c \<in> set cs \<Longrightarrow> foreign s uid c \<Longrightarrow> \<not> fst (scan_kids s uid cs acc st)"
  by (induction cs arbitrary: acc st) (auto simp: foreign_def)

lemma wf_kid_rel: "wf (kid_rel N)"
  by (rule wf_subset [OF wf_measure [of "\<lambda>c. N - c"]]) (auto simp: kid_rel_def)


lemma child_not_above:
  assumes "wellformed s" and "c \<in> set (children_of s u)" and "c' \<in> set (children_of s u)"
  shows "c \<notin> set (ancestors_of s c')"
proof
  assume "c \<in> set (ancestors_of s c')"
  then have "c = u \<or> c \<in> set (ancestors_of s u)"
    using assms by (simp add: child_ancestors)
  then have "c \<le> u" using ancestors_of_less [of c s u] by auto
  with child_greater(1) [OF assms(1,2)] show False by simp
qed

lemma indep_step:
  assumes wf: "wellformed s" and ind: "indep s (u # rest)"
  shows "indep s (rev (filter P (children_of s u)) @ rest)"
proof -
  let ?K = "filter P (children_of s u)"
  have kid: "c \<in> set (children_of s u)" if "c \<in> set ?K" for c using that by simp
  have up: "u \<in> set (ancestors_of s c)" if "c \<in> set ?K" for c
    using child_ancestors [OF wf kid [OF that]] by simp
  have nrest: "c \<notin> set rest" if "c \<in> set ?K" for c
    using up [OF that] ind by (auto simp: indep_def)
  have d: "distinct (rev ?K @ rest)"
    using ind nrest by (auto simp: indep_def)
  have "a \<notin> set (ancestors_of s b)" if "a \<in> set ?K \<union> set rest" "b \<in> set ?K \<union> set rest" for a b
  proof
    assume ab: "a \<in> set (ancestors_of s b)"
    show False
    proof (cases "b \<in> set ?K")
      case True
      then have "ancestors_of s b = u # ancestors_of s u"
        using child_ancestors [OF wf kid] by simp
      with ab have au: "a = u \<or> a \<in> set (ancestors_of s u)" by simp
      show False
      proof (cases "a \<in> set ?K")
        case True
        with au child_greater(1) [OF wf kid [OF True]] ancestors_of_less [of a s u]
        show False by auto
      next
        case False
        with that(1) have "a \<in> set rest" by auto
        with au ind show False by (auto simp: indep_def)
      qed
    next
      case False
      with that(2) have b: "b \<in> set rest" by auto
      show False
      proof (cases "a \<in> set ?K")
        case True
        from ancestors_of_trans [OF ab] up [OF True] have "u \<in> set (ancestors_of s b)" by blast
        with b ind show False by (auto simp: indep_def)
      next
        case False
        with that(1) have "a \<in> set rest" by auto
        with ab b ind show False by (auto simp: indep_def)
      qed
    qed
  qed
  with d show ?thesis by (auto simp: indep_def)
qed

lemma sep_step:
  assumes wf: "wellformed s" and ind: "indep s (u # rest)" and sp: "sep s (u # rest) acc"
  shows "sep s (rev (filter P (children_of s u)) @ rest) (acc @ filter Q (children_of s u))"
proof -
  let ?K = "filter P (children_of s u)" and ?L = "filter Q (children_of s u)"
  have kid: "c \<in> set (children_of s u)" if "c \<in> set ?K \<union> set ?L" for c using that by auto
  have "w \<notin> set (ancestors_of s a)" if "a \<in> set acc \<union> set ?L" "w \<in> set ?K \<union> set rest" for a w
  proof
    assume wa: "w \<in> set (ancestors_of s a)"
    show False
    proof (cases "a \<in> set ?L")
      case True
      then have "ancestors_of s a = u # ancestors_of s u"
        using child_ancestors [OF wf kid] by simp
      with wa have wu: "w = u \<or> w \<in> set (ancestors_of s u)" by simp
      show False
      proof (cases "w \<in> set ?K")
        case True
        with wu child_greater(1) [OF wf kid, of w] ancestors_of_less [of w s u]
        show False by auto
      next
        case False
        with that(2) have "w \<in> set rest" by auto
        with wu ind show False by (auto simp: indep_def)
      qed
    next
      case False
      with that(1) have a: "a \<in> set acc" by auto
      show False
      proof (cases "w \<in> set ?K")
        case True
        then have "u \<in> set (ancestors_of s w)"
          using child_ancestors [OF wf kid, of w] by simp
        from ancestors_of_trans [OF wa this] a sp show False by (auto simp: sep_def)
      next
        case False
        with that(2) have "w \<in> set rest" by auto
        with wa a sp show False by (auto simp: sep_def)
      qed
    qed
  qed
  then show ?thesis by (auto simp: sep_def)
qed

lemma distinct_step:
  assumes wf: "wellformed s" and sp: "sep s (u # rest) acc" and d: "distinct acc"
  shows "distinct (acc @ filter Q (children_of s u))"
proof -
  have "c \<notin> set acc" if "c \<in> set (children_of s u)" for c
  proof
    assume "c \<in> set acc"
    with sp have "u \<notin> set (ancestors_of s c)" by (simp add: sep_def)
    with child_ancestors [OF wf that] show False by simp
  qed
  with d show ?thesis by auto
qed

lemma mult_step:
  assumes wf: "wellformed s"
  shows "(mset (rev (filter P (children_of s u)) @ rest), mset (u # rest)) \<in> mult (kid_rel (nat (n s)))"
proof -
  have "(mset rest + mset (filter P (children_of s u)), mset rest + {#u#}) \<in> mult (kid_rel (nat (n s)))"
  proof (rule one_step_implies_mult)
    show "{#u#} \<noteq> {#}" by simp
    show "\<forall>k \<in> set_mset (mset (filter P (children_of s u))). \<exists>j \<in> set_mset {#u#}. (k, j) \<in> kid_rel (nat (n s))"
      using child_greater [OF wf] by (auto simp: kid_rel_def)
  qed
  then show ?thesis by (simp add: ac_simps)
qed

lemma filter_upt_ge:
  "N \<le> a \<Longrightarrow> filter (\<lambda>c. c < N) [a..<b] = []"
  by (auto simp: filter_empty_conv)

lemma scanChildren_spec:
  assumes wf: "wellformed s"
  shows "j \<le> nat (m s) \<Longrightarrow>
    scanChildren s uid (int u * m s + 1) (int j) (map int acc) (map int st) =
      Some (ints (scan_kids s uid
         (filter (\<lambda>c. c < nat (n s)) [u * nat (m s) + 1 + j ..< u * nat (m s) + 1 + nat (m s)]) acc st))"
proof (induction "nat (m s) - j" arbitrary: j acc st)
  case 0
  then have "j = nat (m s)" by simp
  then have "\<not> int j < m s" by simp
  then show ?case
    using \<open>j = nat (m s)\<close>
    by (subst scanChildren.simps) (simp add: ints_def)
next
  case (Suc k)
  let ?M = "nat (m s)" and ?N = "nat (n s)"
  let ?c = "u * ?M + 1 + j"
  have m1: "1 \<le> m s" and n0: "0 \<le> n s" using wf by (simp_all add: wellformed_def)
  have len: "length (lockedBy s) = ?N" "length (descLocked s) = ?N"
    using wf by (simp_all add: wellformed_def)
  from Suc.hyps(2) have jlt: "j < ?M" by simp
  then have jlt': "int j < m s" by simp
  have ci: "int u * m s + 1 + int j = int ?c"
    using m1 by simp
  have ih: "scanChildren s uid (int u * m s + 1) (int (Suc j)) (map int acc') (map int st') =
      Some (ints (scan_kids s uid
         (filter (\<lambda>c. c < ?N) [u * ?M + 1 + Suc j ..< u * ?M + 1 + ?M]) acc' st'))" for acc' st'
    using Suc.hyps(1) [of "Suc j" acc' st'] Suc.hyps(2) jlt by simp
  have sj: "int j + 1 = int (Suc j)" by simp
  show ?case
  proof (cases "?c < ?N")
    case False
    then have "n s \<le> int ?c" using n0 by linarith
    moreover have "filter (\<lambda>c. c < ?N) [?c ..< u * ?M + 1 + ?M] = []"
      using False by (simp add: filter_upt_ge)
    ultimately show ?thesis
      using jlt' by (subst scanChildren.simps) (simp add: ci ints_def)
  next
    case True
    then have lt: "int ?c < n s" by linarith
    have split: "filter (\<lambda>c. c < ?N) [?c ..< u * ?M + 1 + ?M]
        = ?c # filter (\<lambda>c. c < ?N) [u * ?M + 1 + Suc j ..< u * ?M + 1 + ?M]"
      using True jlt by (simp add: upt_conv_Cons)
    have nlt: "\<not> n s \<le> int ?c" using lt by simp
    have g1: "vget (lockedBy s) (int ?c) = Some (lockedBy s ! ?c)"
      and g2: "vget (descLocked s) (int ?c) = Some (descLocked s ! ?c)"
      by (simp_all only: vget_int len True if_True)
    have step: "scanChildren s uid (int u * m s + 1) (int j) A S =
       (if lockedBy s ! ?c \<noteq> 0 then
          (if lockedBy s ! ?c \<noteq> uid then Some (False, A, S)
           else scanChildren s uid (int u * m s + 1) (int (Suc j)) (A @ [int ?c]) S)
        else if descLocked s ! ?c > 0 then
          scanChildren s uid (int u * m s + 1) (int (Suc j)) A (int ?c # S)
        else scanChildren s uid (int u * m s + 1) (int (Suc j)) A S)" for A S
      apply (subst scanChildren.simps)
      apply (simp only: ci sj jlt' nlt g1 g2 if_True if_False bind.bind_lunit)
      done
    show ?thesis
      unfolding step split
      using ih [of "acc @ [?c]" st] ih [of acc "?c # st"] ih [of acc st]
      by (simp add: ints_def)
  qed
qed


lemma scanChildren_children:
  assumes wf: "wellformed s"
  shows "scanChildren s uid (int u * m s + 1) 0 (map int acc) (map int st) =
      Some (ints (scan_kids s uid (children_of s u) acc st))"
  using scanChildren_spec [OF wf, of 0 uid u acc st] by (simp add: children_of_def)

lemma upgrade_visit_Nil: "upgrade_visit s uid [] acc = Some (True, acc)"
  by (subst upgrade_visit.simps) simp

lemma upgrade_visit_Cons:
  "upgrade_visit s uid (u # rest) acc =
     do {
       r \<leftarrow> scanChildren s uid (u * m s + 1) 0 acc rest;
       if \<not> fst r then Some (False, fst (snd r))
       else upgrade_visit s uid (snd (snd r)) (fst (snd r)) }"
  by (subst upgrade_visit.simps) simp

lemma upgrade_visit_spec:
  assumes wf: "wellformed s"
  shows "\<forall>u \<in> set st. u < nat (n s) \<Longrightarrow>
     \<exists>ok acc'. upgrade_visit s uid (map int st) (map int acc) = Some (ok, map int acc') \<and>
        (ok \<longleftrightarrow> (\<forall>x \<in> Reach s st. \<not> foreign s uid x)) \<and>
        (ok \<longrightarrow> set acc' = set acc \<union> {x \<in> Reach s st. locked s x}) \<and>
        (ok \<longrightarrow> distinct acc \<longrightarrow> indep s st \<longrightarrow> sep s st acc \<longrightarrow> distinct acc')"
proof (induction "mset st" arbitrary: st acc
    rule: wf_induct_rule [OF wf_mult [OF wf_kid_rel [of "nat (n s)"]]])
  case 1
  show ?case
  proof (cases st)
    case Nil
    then show ?thesis
      by (auto simp: upgrade_visit_Nil)
  next
    case (Cons u rest)
    let ?kids = "children_of s u"
    let ?P = "filter (pushable s) ?kids" and ?L = "filter (locked s) ?kids"
    have R: "Reach s st = set ?kids \<union> Reach s (rev ?P @ rest)"
      unfolding Cons by (simp add: Reach_Cons Reach_append Un_assoc)
    show ?thesis
    proof (cases "\<exists>c \<in> set ?kids. foreign s uid c")
      case True
      then obtain c where c: "c \<in> set ?kids" "foreign s uid c" by blast
      let ?r = "scan_kids s uid ?kids acc rest"
      have "\<not> fst ?r" using c by (rule scan_kids_fail)
      then have "upgrade_visit s uid (map int st) (map int acc) = Some (False, map int (fst (snd ?r)))"
        unfolding Cons by (simp add: upgrade_visit_Cons scanChildren_children [OF wf] ints_def)
      moreover have "\<not> (\<forall>x \<in> Reach s st. \<not> foreign s uid x)"
        using c R by blast
      ultimately show ?thesis by blast
    next
      case False
      then have nf: "\<forall>c \<in> set ?kids. \<not> foreign s uid c" by blast
      have scan: "scan_kids s uid ?kids acc rest = (True, acc @ ?L, rev ?P @ rest)"
        using nf by (rule scan_kids_ok)
      have step: "upgrade_visit s uid (map int st) (map int acc) =
          upgrade_visit s uid (map int (rev ?P @ rest)) (map int (acc @ ?L))"
        unfolding Cons by (simp add: upgrade_visit_Cons scanChildren_children [OF wf] ints_def scan)
      have smaller: "(mset (rev ?P @ rest), mset st) \<in> mult (kid_rel (nat (n s)))"
        unfolding Cons by (rule mult_step [OF wf])
      have bound: "\<forall>w \<in> set (rev ?P @ rest). w < nat (n s)"
        using "1.prems" child_greater(2) [OF wf] unfolding Cons by auto
      from "1.hyps" [OF smaller bound, of "acc @ ?L"] obtain ok acc' where
        v: "upgrade_visit s uid (map int (rev ?P @ rest)) (map int (acc @ ?L)) = Some (ok, map int acc')"
        and ok: "ok \<longleftrightarrow> (\<forall>x \<in> Reach s (rev ?P @ rest). \<not> foreign s uid x)"
        and st: "ok \<longrightarrow> set acc' = set (acc @ ?L) \<union> {x \<in> Reach s (rev ?P @ rest). locked s x}"
        and di: "ok \<longrightarrow> distinct (acc @ ?L) \<longrightarrow> indep s (rev ?P @ rest) \<longrightarrow>
                  sep s (rev ?P @ rest) (acc @ ?L) \<longrightarrow> distinct acc'"
        by blast
      have "ok \<longleftrightarrow> (\<forall>x \<in> Reach s st. \<not> foreign s uid x)"
        using ok nf unfolding R by blast
      moreover have "ok \<longrightarrow> set acc' = set acc \<union> {x \<in> Reach s st. locked s x}"
        using st unfolding R by auto
      moreover have "ok \<longrightarrow> distinct acc \<longrightarrow> indep s st \<longrightarrow> sep s st acc \<longrightarrow> distinct acc'"
        using di indep_step [OF wf, of u rest "pushable s"]
          sep_step [OF wf, of u rest acc "pushable s" "locked s"]
          distinct_step [OF wf, of u rest acc "locked s"]
        unfolding Cons by blast
      ultimately show ?thesis using step v by auto
    qed
  qed
qed

section \<open>The commit phase and the whole of Upgrade\<close>

lemma length_unlock_at [simp]: "length (unlock_at acc ls) = length ls"
  unfolding unlock_at_def by (induction acc arbitrary: ls) simp_all

lemma nth_unlock_at:
  "k < length ls \<Longrightarrow> unlock_at acc ls ! k = (if k \<in> set acc then 0 else ls ! k)"
  unfolding unlock_at_def
  by (induction acc arbitrary: ls) (auto simp: nth_list_update)

lemma length_release_counts [simp]: "length (release_counts s acc ds) = length ds"
  unfolding release_counts_def by (induction acc arbitrary: ds) simp_all

lemma nth_release_counts:
  "k < length ds \<Longrightarrow>
   release_counts s acc ds ! k = ds ! k - int (length (filter (\<lambda>u. k \<in> set (ancestors_of s u)) acc))"
  unfolding release_counts_def
  by (induction acc arbitrary: ds) (auto simp: nth_add_at)

lemma unlock_at_Cons: "unlock_at (u # us) ls = unlock_at us (ls[u := 0])"
  by (simp add: unlock_at_def)

lemma release_counts_Cons:
  "release_counts s (u # us) ds = release_counts s us (add_at (ancestors_of s u) (- 1) ds)"
  by (simp add: release_counts_def)

lemma release_counts_upd [simp]:
  "release_counts (s\<lparr>lockedBy := ls\<rparr>) = release_counts s"
  "release_counts (s\<lparr>descLocked := ds\<rparr>) = release_counts s"
  by (simp_all add: release_counts_def fun_eq_iff)

lemma unlockAll_spec:
  "wellformed s \<Longrightarrow> \<forall>u \<in> set acc. u < nat (n s) \<Longrightarrow>
   unlockAll s (map int acc) =
     Some (s\<lparr>lockedBy := unlock_at acc (lockedBy s),
             descLocked := release_counts s acc (descLocked s)\<rparr>)"
proof (induction acc arbitrary: s)
  case Nil
  then show ?case by (simp add: unlock_at_def release_counts_def)
next
  case (Cons u us)
  have len: "length (lockedBy s) = nat (n s)" "length (descLocked s) = nat (n s)"
    using Cons.prems(1) by (simp_all add: wellformed_def)
  have u: "u < nat (n s)" using Cons.prems(2) by simp
  let ?s1 = "s\<lparr>lockedBy := (lockedBy s)[u := 0]\<rparr>"
  let ?s2 = "?s1\<lparr>descLocked := add_at (ancestors_of s u) (- 1) (descLocked s)\<rparr>"
  have wf1: "wellformed ?s1" using Cons.prems(1) len by (simp add: wellformed_lockedBy)
  have wf2: "wellformed ?s2" using wf1 len by (simp add: wellformed_descLocked)
  have "unlockAll s (map int (u # us)) = unlockAll ?s2 (map int us)"
    using u len updateAncestorDescLockCount_spec [OF wf1, of u "- 1"] by simp
  also have "\<dots> = Some (?s2\<lparr>lockedBy := unlock_at us (lockedBy ?s2),
             descLocked := release_counts ?s2 us (descLocked ?s2)\<rparr>)"
    using Cons.prems(2) by (intro Cons.IH [OF wf2]) simp
  finally show ?case
    by (simp add: unlock_at_Cons release_counts_Cons)
qed

lemma indep_single: "indep s [v]"
  using not_in_own_ancestors [of v s] by (simp add: indep_def)

lemma sep_Nil: "sep s st []"
  by (simp add: sep_def)

lemma Reach_single: "Reach s [v] = {x. reach s v x}"
  by (simp add: Reach_def)

lemma upgradeNode_spec:
  assumes wf: "wellformed s" and v: "v < nat (n s)"
  shows "\<exists>acc. distinct acc \<and>
     ((\<forall>x. reach s v x \<longrightarrow> \<not> foreign s uid x) \<longrightarrow> set acc = {x. reach s v x \<and> locked s x}) \<and>
     upgradeNode s (int v) uid =
       (if locked s v \<or> (\<exists>a \<in> set (ancestors_of s v). locked s a) \<or> descLocked s ! v = 0 \<or>
           (\<exists>x. reach s v x \<and> foreign s uid x)
        then Some (False, s)
        else Some (True, upgraded s v uid acc))"
proof -
  have len: "length (lockedBy s) = nat (n s)" "length (descLocked s) = nat (n s)"
    using wf by (simp_all add: wellformed_def)
  from upgrade_visit_spec [OF wf, of "[v]" uid "[]"] v obtain ok acc where
    vis: "upgrade_visit s uid [int v] [] = Some (ok, map int acc)"
    and ok: "ok \<longleftrightarrow> (\<forall>x \<in> Reach s [v]. \<not> foreign s uid x)"
    and st: "ok \<longrightarrow> set acc = {x \<in> Reach s [v]. locked s x}"
    and di: "ok \<longrightarrow> distinct acc"
    by (auto simp: indep_single sep_Nil)
  show ?thesis
  proof (cases ok)
    case False
    then have "upgradeNode s (int v) uid = Some (False, s)"
      using v len hasLockedAncestor_spec [OF wf v] vis
      by (simp add: upgradeNode_def locked_def)
    moreover from False ok have "\<exists>x. reach s v x \<and> foreign s uid x"
      by (auto simp: Reach_single)
    ultimately have "distinct ([]::nat list) \<and>
       ((\<forall>x. reach s v x \<longrightarrow> \<not> foreign s uid x) \<longrightarrow> set [] = {x. reach s v x \<and> locked s x}) \<and>
       upgradeNode s (int v) uid =
       (if locked s v \<or> (\<exists>a \<in> set (ancestors_of s v). locked s a) \<or> descLocked s ! v = 0 \<or>
           (\<exists>x. reach s v x \<and> foreign s uid x)
        then Some (False, s)
        else Some (True, upgraded s v uid []))"
      by auto
    then show ?thesis by blast
  next
    case True
    with ok have nf: "\<forall>x. reach s v x \<longrightarrow> \<not> foreign s uid x" by (simp add: Reach_single)
    from True st have set: "set acc = {x. reach s v x \<and> locked s x}" by (simp add: Reach_single)
    from True di have d: "distinct acc" by simp
    have bound: "\<forall>u \<in> set acc. u < nat (n s)"
      using set reach_below [OF wf] by auto
    let ?s1 = "s\<lparr>lockedBy := unlock_at acc (lockedBy s),
                  descLocked := release_counts s acc (descLocked s)\<rparr>"
    let ?s2 = "?s1\<lparr>lockedBy := (lockedBy ?s1)[v := uid]\<rparr>"
    have wf2: "wellformed ?s2"
      using wf len by (simp add: wellformed_def)
    have un: "unlockAll s (map int acc) = Some ?s1"
      by (rule unlockAll_spec [OF wf bound])
    have up: "updateAncestorDescLockCount ?s2 (int v) 1 =
        Some (?s2\<lparr>descLocked := add_at (ancestors_of ?s2 v) 1 (descLocked ?s2)\<rparr>)"
      using v by (intro updateAncestorDescLockCount_spec [OF wf2]) simp
    have "upgradeNode s (int v) uid =
       (if locked s v \<or> (\<exists>a \<in> set (ancestors_of s v). locked s a) \<or> descLocked s ! v = 0
        then Some (False, s)
        else Some (True, upgraded s v uid acc))"
      using v len hasLockedAncestor_spec [OF wf v] vis True un up
      by (simp add: upgradeNode_def locked_def upgraded_def)
    with nf set d show ?thesis by auto
  qed
qed

section \<open>The invariants I1 and I2\<close>

lemma set_node_list: "set (node_list s) = {w. w < nat (n s)}"
  unfolding node_list_def by auto

lemma set_descendants_of:
  "set (descendants_of s v) = {w. w < nat (n s) \<and> v \<in> set (ancestors_of s w)}"
  unfolding descendants_of_def set_filter set_node_list by simp

lemma set_lockedDescendants: "set (lockedDescendants s v) = locked_below s v"
  by (auto simp: lockedDescendants_def locked_below_def set_descendants_of)

lemma distinct_lockedDescendants [simp]: "distinct (lockedDescendants s v)"
  by (simp add: lockedDescendants_def descendants_of_def node_list_def)

lemma length_lockedDescendants: "length (lockedDescendants s v) = card (locked_below s v)"
  using distinct_card [OF distinct_lockedDescendants, of s v]
  by (simp add: set_lockedDescendants)

lemma finite_locked_below [simp]: "finite (locked_below s k)"
  by (simp add: locked_below_def)

lemma I2_iff: "I2 s \<longleftrightarrow> (\<forall>k < nat (n s). descLocked s ! k = int (card (locked_below s k)))"
  by (simp add: I2_def length_lockedDescendants set_node_list)

lemma I1_iff:
  "I1 s \<longleftrightarrow> (\<forall>w < nat (n s). locked s w \<longrightarrow> (\<forall>a \<in> set (ancestors_of s w). \<not> locked s a))"
  (is "_ \<longleftrightarrow> ?R")
proof
  assume "I1 s"
  then show ?R
    by (simp only: I1_def set_node_list mem_Collect_eq) blast
next
  assume r: ?R
  have "\<not> locked s w" if "v < nat (n s)" "locked s v" "w \<in> set (descendants_of s v)" for v w
  proof
    assume "locked s w"
    moreover from that(3) have "w < nat (n s)" "v \<in> set (ancestors_of s w)"
      by (simp_all add: set_descendants_of)
    ultimately have "\<not> locked s v" using r by blast
    with that(2) show False by simp
  qed
  with r show "I1 s"
    by (simp only: I1_def set_node_list mem_Collect_eq) blast
qed

lemma I2_counter_pos:
  assumes "I2 s" and "k < nat (n s)" and "w \<in> locked_below s k"
  shows "0 < descLocked s ! k"
proof -
  have "0 < card (locked_below s k)" using assms(3) by (auto simp: card_gt_0_iff)
  with assms(1,2) show ?thesis by (simp add: I2_iff)
qed

lemma I2_counter_zero:
  assumes "I2 s" and "k < nat (n s)" and "descLocked s ! k \<le> 0"
  shows "locked_below s k = {}"
  using assms by (simp add: I2_iff)

text \<open>Under the two invariants the traversal reads every locked node below its start.\<close>

lemma reach_locked_below:
  assumes wf: "wellformed s" and i1: "I1 s" and i2: "I2 s"
  shows "x \<in> locked_below s v \<Longrightarrow> reach s v x"
proof (induction "x - v" arbitrary: v rule: less_induct)
  case less
  from less.prems have x: "x < nat (n s)" "v \<in> set (ancestors_of s x)" "locked s x"
    by (simp_all add: locked_below_def)
  from ancestor_via_child [of v "nat (m s)" x] x(2) obtain c where
    c: "0 < c" "parent_of (nat (m s)) c = v" "c = x \<or> c \<in> set (ancestors_of s x)"
    unfolding ancestors_of_def by blast
  have cx: "c \<le> x" using c(3) ancestors_of_less [of c s x] by auto
  then have cn: "c < nat (n s)" using x(1) by simp
  have kid: "c \<in> set (children_of s v)"
    using c cn by (simp add: children_of_iff [OF wf])
  show ?case
  proof (cases "c = x")
    case True
    with kid show ?thesis by (auto intro: reach.kid)
  next
    case False
    with c(3) have cax: "c \<in> set (ancestors_of s x)" by simp
    then have below: "x \<in> locked_below s c" using x by (simp add: locked_below_def)
    have "\<not> locked s c" using i1 x cax by (auto simp: I1_iff)
    moreover have "0 < descLocked s ! c" using i2 cn below by (rule I2_counter_pos)
    ultimately have p: "pushable s c" by (simp add: pushable_def)
    have "v < c" using child_greater(1) [OF wf kid] .
    then have "x - c < x - v" using cx by simp
    from less.hyps [OF this below] have "reach s c x" .
    with kid p show ?thesis by (rule reach.down)
  qed
qed

lemma reach_locked_eq:
  assumes wf: "wellformed s" and i1: "I1 s" and i2: "I2 s"
  shows "{x. reach s v x \<and> locked s x} = locked_below s v"
proof (rule set_eqI)
  fix x
  show "x \<in> {x. reach s v x \<and> locked s x} \<longleftrightarrow> x \<in> locked_below s v"
  proof
    assume "x \<in> {x. reach s v x \<and> locked s x}"
    then have "reach s v x" "locked s x" by simp_all
    with reach_below [OF wf, of v x] show "x \<in> locked_below s v"
      by (simp add: locked_below_def)
  next
    assume b: "x \<in> locked_below s v"
    then have "locked s x" by (simp add: locked_below_def)
    with reach_locked_below [OF assms b] show "x \<in> {x. reach s v x \<and> locked s x}" by simp
  qed
qed


lemma locked_below_cong:
  "n s' = n s \<Longrightarrow> m s' = m s \<Longrightarrow>
   (\<And>w. w < nat (n s) \<Longrightarrow> locked s' w = Q w) \<Longrightarrow>
   locked_below s' k = {w. w < nat (n s) \<and> k \<in> set (ancestors_of s w) \<and> Q w}"
  by (auto simp: locked_below_def ancestors_of_def)

lemma I2_lock:
  assumes wf: "wellformed s" and i2: "I2 s" and v: "v < nat (n s)" and uid: "uid \<noteq> 0"
    and free: "\<not> locked s v"
  shows "I2 (s\<lparr>lockedBy := (lockedBy s)[v := uid],
               descLocked := add_at (ancestors_of s v) 1 (descLocked s)\<rparr>)"
    (is "I2 ?s'")
proof -
  have len: "length (lockedBy s) = nat (n s)" "length (descLocked s) = nat (n s)"
    using wf by (simp_all add: wellformed_def)
  have lk: "locked ?s' w = (w = v \<or> locked s w)" if "w < nat (n s)" for w
    using that len uid v by (auto simp: locked_def nth_list_update)
  have lb: "locked_below ?s' k = {w. w < nat (n s) \<and> k \<in> set (ancestors_of s w) \<and> (w = v \<or> locked s w)}" for k
    by (rule locked_below_cong) (simp_all add: lk)
  have "descLocked ?s' ! k = int (card (locked_below ?s' k))" if k: "k < nat (n s)" for k
  proof (cases "k \<in> set (ancestors_of s v)")
    case True
    have "locked_below ?s' k = insert v (locked_below s k)"
      unfolding lb using True v by (auto simp: locked_below_def)
    moreover have "v \<notin> locked_below s k" using free by (simp add: locked_below_def)
    ultimately have "card (locked_below ?s' k) = Suc (card (locked_below s k))" by simp
    then show ?thesis
      using True k len i2 by (simp add: nth_add_at I2_iff)
  next
    case False
    have "locked_below ?s' k = locked_below s k"
      unfolding lb using False by (auto simp: locked_below_def)
    then show ?thesis
      using False k len i2 by (simp add: nth_add_at I2_iff)
  qed
  then show ?thesis by (simp add: I2_iff)
qed

lemma I2_unlock:
  assumes wf: "wellformed s" and i2: "I2 s" and v: "v < nat (n s)" and lv: "locked s v"
  shows "I2 (s\<lparr>lockedBy := (lockedBy s)[v := 0],
               descLocked := add_at (ancestors_of s v) (- 1) (descLocked s)\<rparr>)"
    (is "I2 ?s'")
proof -
  have len: "length (lockedBy s) = nat (n s)" "length (descLocked s) = nat (n s)"
    using wf by (simp_all add: wellformed_def)
  have lk: "locked ?s' w = (w \<noteq> v \<and> locked s w)" if "w < nat (n s)" for w
    using that len v by (auto simp: locked_def nth_list_update)
  have lb: "locked_below ?s' k = {w. w < nat (n s) \<and> k \<in> set (ancestors_of s w) \<and> (w \<noteq> v \<and> locked s w)}" for k
    by (rule locked_below_cong) (simp_all add: lk)
  have "descLocked ?s' ! k = int (card (locked_below ?s' k))" if k: "k < nat (n s)" for k
  proof (cases "k \<in> set (ancestors_of s v)")
    case True
    have "locked_below ?s' k = locked_below s k - {v}"
      unfolding lb by (auto simp: locked_below_def)
    moreover have "v \<in> locked_below s k" using lv v True by (simp add: locked_below_def)
    moreover from this have "0 < card (locked_below s k)"
      by (auto simp: card_gt_0_iff)
    ultimately have "int (card (locked_below ?s' k)) = int (card (locked_below s k)) - 1"
      by (simp add: of_nat_diff)
    then show ?thesis
      using True k len i2 by (simp add: nth_add_at I2_iff)
  next
    case False
    have "locked_below ?s' k = locked_below s k"
      unfolding lb using False by (auto simp: locked_below_def)
    then show ?thesis
      using False k len i2 by (simp add: nth_add_at I2_iff)
  qed
  then show ?thesis by (simp add: I2_iff)
qed

lemma I2_upgrade:
  assumes wf: "wellformed s" and i2: "I2 s" and v: "v < nat (n s)" and uid: "uid \<noteq> 0"
    and free: "\<not> locked s v"
    and d: "distinct acc" and sub: "set acc \<subseteq> {w. w < nat (n s) \<and> locked s w}"
  shows "I2 (upgraded s v uid acc)" (is "I2 ?s'")
proof -
  have len: "length (lockedBy s) = nat (n s)" "length (descLocked s) = nat (n s)"
    using wf by (simp_all add: wellformed_def)
  have vA: "v \<notin> set acc" using sub free by auto
  have lk: "locked ?s' w = (w = v \<or> (locked s w \<and> w \<notin> set acc))" if "w < nat (n s)" for w
    using that len uid v by (auto simp: upgraded_def locked_def nth_list_update nth_unlock_at)
  have lb: "locked_below ?s' k =
      {w. w < nat (n s) \<and> k \<in> set (ancestors_of s w) \<and> (w = v \<or> (locked s w \<and> w \<notin> set acc))}" for k
  proof (rule locked_below_cong)
    show "n ?s' = n s" "m ?s' = m s" by (simp_all add: upgraded_def)
  qed (rule lk)
  have "descLocked ?s' ! k = int (card (locked_below ?s' k))" if k: "k < nat (n s)" for k
  proof -
    let ?B = "locked_below s k"
    have cnt: "length (filter (\<lambda>u. k \<in> set (ancestors_of s u)) acc) = card (?B \<inter> set acc)"
    proof -
      have "distinct (filter (\<lambda>u. k \<in> set (ancestors_of s u)) acc)"
        using d by simp
      from distinct_card [OF this]
      have "length (filter (\<lambda>u. k \<in> set (ancestors_of s u)) acc)
          = card {u \<in> set acc. k \<in> set (ancestors_of s u)}"
        by simp
      also have "{u \<in> set acc. k \<in> set (ancestors_of s u)} = ?B \<inter> set acc"
        using sub by (auto simp: locked_below_def)
      finally show ?thesis .
    qed
    have le: "card (?B \<inter> set acc) \<le> card ?B"
      by (rule card_mono) simp_all
    have diff: "card (?B - set acc) = card ?B - card (?B \<inter> set acc)"
      by (rule card_Diff_subset_Int) simp
    have dk: "descLocked ?s' ! k =
        descLocked s ! k - int (card (?B \<inter> set acc)) + (if k \<in> set (ancestors_of s v) then 1 else 0)"
      using k len by (simp add: upgraded_def nth_add_at nth_release_counts cnt)
    show ?thesis
    proof (cases "k \<in> set (ancestors_of s v)")
      case True
      have "locked_below ?s' k = insert v (?B - set acc)"
        unfolding lb using True v by (auto simp: locked_below_def)
      moreover have "v \<notin> ?B - set acc" using free by (simp add: locked_below_def)
      ultimately have "card (locked_below ?s' k) = Suc (card (?B - set acc))" by simp
      then show ?thesis
        using True k i2 le by (simp add: dk diff I2_iff of_nat_diff)
    next
      case False
      have "locked_below ?s' k = ?B - set acc"
        unfolding lb using False by (auto simp: locked_below_def)
      then show ?thesis
        using False k i2 le by (simp add: dk diff I2_iff of_nat_diff)
    qed
  qed
  moreover have "n ?s' = n s" by (simp add: upgraded_def)
  ultimately show ?thesis by (simp add: I2_iff)
qed


lemma I1_lock:
  assumes wf: "wellformed s" and i1: "I1 s" and i2: "I2 s" and v: "v < nat (n s)"
    and free: "\<not> locked s v" "\<forall>a \<in> set (ancestors_of s v). \<not> locked s a" "descLocked s ! v = 0"
  shows "I1 (s\<lparr>lockedBy := (lockedBy s)[v := uid],
               descLocked := add_at (ancestors_of s v) 1 (descLocked s)\<rparr>)"
    (is "I1 ?s'")
proof -
  have len: "length (lockedBy s) = nat (n s)"
    using wf by (simp add: wellformed_def)
  have lk: "locked ?s' w \<Longrightarrow> w = v \<or> locked s w" for w
    by (cases "w = v") (simp_all add: locked_def)
  have "\<not> locked ?s' a" if w: "w < nat (n s)" "locked ?s' w" and a: "a \<in> set (ancestors_of s w)" for w a
  proof
    assume la: "locked ?s' a"
    have aw: "a < w" using a by (rule ancestors_of_less)
    show False
    proof (cases "w = v")
      case True
      with a free(2) have "\<not> locked s a" by simp
      moreover from aw True have "a \<noteq> v" by simp
      ultimately show False using lk [OF la] by simp
    next
      case False
      with lk [OF w(2)] have lw: "locked s w" by simp
      show False
      proof (cases "a = v")
        case True
        with a lw w(1) have "w \<in> locked_below s v" by (simp add: locked_below_def)
        from I2_counter_pos [OF i2 v this] free(3) show False by simp
      next
        case False
        with lk [OF la] have "locked s a" by simp
        with i1 w(1) lw a show False by (auto simp: I1_iff)
      qed
    qed
  qed
  then show ?thesis by (simp add: I1_iff)
qed

lemma I1_unlock:
  assumes i1: "I1 s"
  shows "I1 (s\<lparr>lockedBy := (lockedBy s)[v := 0],
               descLocked := add_at (ancestors_of s v) (- 1) (descLocked s)\<rparr>)"
    (is "I1 ?s'")
proof -
  have lk: "locked ?s' w \<Longrightarrow> locked s w" for w
    by (cases "w = v"; cases "v < length (lockedBy s)") (simp_all add: locked_def list_update_beyond)
  show ?thesis
    using i1 lk by (simp add: I1_iff) blast
qed

lemma I1_upgrade:
  assumes wf: "wellformed s" and i1: "I1 s" and v: "v < nat (n s)"
    and free: "\<forall>a \<in> set (ancestors_of s v). \<not> locked s a"
    and acc: "set acc = locked_below s v"
  shows "I1 (upgraded s v uid acc)" (is "I1 ?s'")
proof -
  have len: "length (lockedBy s) = nat (n s)"
    using wf by (simp add: wellformed_def)
  have lk: "w = v \<or> (locked s w \<and> w \<notin> set acc)" if "locked ?s' w" "w < nat (n s)" for w
    using that len by (cases "w = v") (auto simp: upgraded_def locked_def nth_unlock_at split: if_splits)
  have "\<not> locked ?s' a" if w: "w < nat (n s)" "locked ?s' w" and a: "a \<in> set (ancestors_of s w)" for w a
  proof
    assume la: "locked ?s' a"
    have aw: "a < w" using a by (rule ancestors_of_less)
    then have an: "a < nat (n s)" using w(1) by simp
    show False
    proof (cases "w = v")
      case True
      with a free have "\<not> locked s a" by simp
      moreover from aw True have "a \<noteq> v" by simp
      ultimately show False using lk [OF la an] by simp
    next
      case False
      with lk [OF w(2,1)] have lw: "locked s w" "w \<notin> set acc" by simp_all
      with acc w(1) have "v \<notin> set (ancestors_of s w)" by (simp add: locked_below_def)
      with a have "a \<noteq> v" by auto
      with lk [OF la an] have "locked s a" by simp
      with i1 w(1) lw(1) a show False by (auto simp: I1_iff)
    qed
  qed
  moreover have "n ?s' = n s" "ancestors_of ?s' = ancestors_of s"
    by (simp_all add: upgraded_def)
  ultimately show ?thesis by (simp add: I1_iff)
qed

lemma wellformed_upgraded:
  "wellformed s \<Longrightarrow> wellformed (upgraded s v uid acc)"
  by (simp add: wellformed_def upgraded_def)

lemma process_query_invariant:
  assumes wf: "wellformed s" and i1: "I1 s" and i2: "I2 s"
    and q: "valid_query s q" and c: "caller_of q \<noteq> 0"
  shows "\<exists>b s'. process_query s q = Some (b, s') \<and> wellformed s' \<and> I1 s' \<and> I2 s' \<and> n s' = n s"
proof -
  obtain opc node_id uid where qq: "q = (opc, node_id, uid)" by (cases q) auto
  define v where "v = nat node_id"
  have opc: "opc = 1 \<or> opc = 2 \<or> opc = 3" and node: "node_id = int v" and v: "v < nat (n s)"
    using q by (auto simp: valid_query_def qq v_def)
  have uid: "uid \<noteq> 0" using c by (simp add: caller_of_def qq)
  have len: "length (lockedBy s) = nat (n s)" "length (descLocked s) = nat (n s)"
    using wf by (simp_all add: wellformed_def)
  from opc show ?thesis
  proof (elim disjE)
    assume "opc = 1"
    then have pq: "process_query s q = lockNode s (int v) uid" by (simp add: qq node)
    show ?thesis
    proof (cases "locked s v \<or> (\<exists>a \<in> set (ancestors_of s v). locked s a) \<or> descLocked s ! v \<noteq> 0")
      case True
      then have "process_query s q = Some (False, s)"
        unfolding pq by (simp add: lockNode_spec [OF wf v])
      with wf i1 i2 show ?thesis by auto
    next
      case False
      let ?s' = "s\<lparr>lockedBy := (lockedBy s)[v := uid],
                    descLocked := add_at (ancestors_of s v) 1 (descLocked s)\<rparr>"
      from False have "process_query s q = Some (True, ?s')"
        unfolding pq by (simp add: lockNode_spec [OF wf v])
      moreover have "wellformed ?s'" using wf len by (simp add: wellformed_def)
      moreover have "I1 ?s'" using False by (intro I1_lock [OF wf i1 i2 v]) simp_all
      moreover have "I2 ?s'" using False by (intro I2_lock [OF wf i2 v uid]) simp
      ultimately show ?thesis by auto
    qed
  next
    assume "opc = 2"
    then have pq: "process_query s q = unlockNode s (int v) uid" by (simp add: qq node)
    show ?thesis
    proof (cases "lockedBy s ! v = uid")
      case False
      then have "process_query s q = Some (False, s)"
        unfolding pq by (simp add: unlockNode_spec [OF wf v])
      with wf i1 i2 show ?thesis by auto
    next
      case True
      let ?s' = "s\<lparr>lockedBy := (lockedBy s)[v := 0],
                    descLocked := add_at (ancestors_of s v) (- 1) (descLocked s)\<rparr>"
      from True have "process_query s q = Some (True, ?s')"
        unfolding pq by (simp add: unlockNode_spec [OF wf v])
      moreover have "wellformed ?s'" using wf len by (simp add: wellformed_def)
      moreover have "I1 ?s'" by (rule I1_unlock [OF i1])
      moreover have "I2 ?s'" using True uid by (intro I2_unlock [OF wf i2 v]) (simp add: locked_def)
      ultimately show ?thesis by auto
    qed
  next
    assume "opc = 3"
    then have pq: "process_query s q = upgradeNode s (int v) uid" by (simp add: qq node)
    from upgradeNode_spec [OF wf v, of uid] obtain acc where
      d: "distinct acc"
      and st: "(\<forall>x. reach s v x \<longrightarrow> \<not> foreign s uid x) \<longrightarrow> set acc = {x. reach s v x \<and> locked s x}"
      and up: "upgradeNode s (int v) uid =
       (if locked s v \<or> (\<exists>a \<in> set (ancestors_of s v). locked s a) \<or> descLocked s ! v = 0 \<or>
           (\<exists>x. reach s v x \<and> foreign s uid x)
        then Some (False, s)
        else Some (True, upgraded s v uid acc))"
      by blast
    show ?thesis
    proof (cases "locked s v \<or> (\<exists>a \<in> set (ancestors_of s v). locked s a) \<or> descLocked s ! v = 0 \<or>
           (\<exists>x. reach s v x \<and> foreign s uid x)")
      case True
      then have "process_query s q = Some (False, s)"
        unfolding pq up by simp
      with wf i1 i2 show ?thesis by auto
    next
      case False
      then have "process_query s q = Some (True, upgraded s v uid acc)"
        unfolding pq up by simp
      moreover have set: "set acc = locked_below s v"
        using False st reach_locked_eq [OF wf i1 i2, of v] by auto
      moreover have "wellformed (upgraded s v uid acc)" using wf by (rule wellformed_upgraded)
      moreover have "I1 (upgraded s v uid acc)"
        using False set by (intro I1_upgrade [OF wf i1 v]) simp_all
      moreover have "I2 (upgraded s v uid acc)"
        using False d set by (intro I2_upgrade [OF wf i2 v uid]) (auto simp: locked_below_def)
      moreover have "n (upgraded s v uid acc) = n s" by (simp add: upgraded_def)
      ultimately show ?thesis by auto
    qed
  qed
qed

lemma process_queries_invariant:
  "wellformed s \<Longrightarrow> I1 s \<Longrightarrow> I2 s \<Longrightarrow>
   \<forall>q \<in> set qs. valid_query s q \<and> caller_of q \<noteq> 0 \<Longrightarrow>
   \<exists>out s'. process_queries s qs = Some (out, s') \<and> length out = length qs \<and>
      wellformed s' \<and> I1 s' \<and> I2 s' \<and> n s' = n s"
proof (induction qs arbitrary: s)
  case Nil
  then show ?case by simp
next
  case (Cons q qs)
  from Cons.prems have q: "valid_query s q" "caller_of q \<noteq> 0" by simp_all
  from process_query_invariant [OF Cons.prems(1,2,3) q] obtain b s1 where
    s1: "process_query s q = Some (b, s1)" "wellformed s1" "I1 s1" "I2 s1" "n s1 = n s"
    by blast
  have "\<forall>q \<in> set qs. valid_query s1 q \<and> caller_of q \<noteq> 0"
    using Cons.prems(4) s1(5) by (simp add: valid_query_def)
  from Cons.IH [OF s1(2,3,4) this] obtain out s' where
    "process_queries s1 qs = Some (out, s')" "length out = length qs"
    "wellformed s'" "I1 s'" "I2 s'" "n s' = n s1"
    by blast
  with s1 show ?case by simp
qed

lemma locked_below_fresh:
  "lockedBy s = replicate (nat (n s)) 0 \<Longrightarrow> locked_below s k = {}"
  by (auto simp: locked_below_def locked_def)

lemma newTreeLocker_invariant:
  assumes "newTreeLocker N M = Some s" and "1 \<le> M"
  shows "wellformed s \<and> I1 s \<and> I2 s \<and> n s = N"
proof -
  have N: "0 \<le> N" using assms(1) by (auto simp: newTreeLocker_def split: if_splits)
  from assms(1) newTreeLocker_spec [OF N assms(2)]
  have s: "s = \<lparr> n = N, m = M, parent = parent_vector (nat N) (nat M),
            lockedBy = replicate (nat N) 0, descLocked = replicate (nat N) 0 \<rparr>"
    by simp
  have "wellformed s" using N assms(2) by (simp add: s wellformed_def)
  moreover have "I1 s" by (simp add: I1_iff locked_def s)
  moreover have "I2 s" by (simp add: I2_iff locked_below_fresh s)
  ultimately show ?thesis by (simp add: s)
qed

section \<open>Upgrade in a consistent state; totality\<close>

lemma unlock_at_set_cong: "set acc = set acc' \<Longrightarrow> unlock_at acc ls = unlock_at acc' ls"
  by (rule nth_equalityI) (simp_all add: nth_unlock_at)

lemma release_counts_set_cong:
  assumes "distinct acc" "distinct acc'" "set acc = set acc'"
  shows "release_counts s acc ds = release_counts s acc' ds"
proof (rule nth_equalityI)
  show "length (release_counts s acc ds) = length (release_counts s acc' ds)" by simp
next
  fix k assume "k < length (release_counts s acc ds)"
  then have k: "k < length ds" by simp
  let ?P = "\<lambda>u. k \<in> set (ancestors_of s u)"
  have "length (filter ?P acc) = card (set (filter ?P acc))"
    using assms(1) by (simp add: distinct_card del: set_filter)
  also have "\<dots> = card (set (filter ?P acc'))"
    using assms(3) by simp
  also have "\<dots> = length (filter ?P acc')"
    using assms(2) by (simp add: distinct_card del: set_filter)
  finally show "release_counts s acc ds ! k = release_counts s acc' ds ! k"
    using k by (simp add: nth_release_counts)
qed

lemma upgraded_set_cong:
  "distinct acc \<Longrightarrow> distinct acc' \<Longrightarrow> set acc = set acc' \<Longrightarrow>
   upgraded s v uid acc = upgraded s v uid acc'"
  by (simp add: upgraded_def unlock_at_set_cong [of acc acc'] release_counts_set_cong [of acc acc'])

text \<open>Upgrade in a state that satisfies I1 and I2.\<close>

lemma upgradeNode_inv_spec:
  assumes wf: "wellformed s" and i1: "I1 s" and i2: "I2 s" and v: "v < nat (n s)"
  shows "upgradeNode s (int v) uid =
     (if \<not> locked s v \<and> (\<forall>a \<in> set (ancestors_of s v). \<not> locked s a) \<and> descLocked s ! v > 0 \<and>
         (\<forall>w \<in> set (lockedDescendants s v). lockedBy s ! w = uid)
      then Some (True, upgraded s v uid (lockedDescendants s v))
      else Some (False, s))"
proof -
  from upgradeNode_spec [OF wf v, of uid] obtain acc where
    d: "distinct acc"
    and st: "(\<forall>x. reach s v x \<longrightarrow> \<not> foreign s uid x) \<longrightarrow> set acc = {x. reach s v x \<and> locked s x}"
    and up: "upgradeNode s (int v) uid =
     (if locked s v \<or> (\<exists>a \<in> set (ancestors_of s v). locked s a) \<or> descLocked s ! v = 0 \<or>
         (\<exists>x. reach s v x \<and> foreign s uid x)
      then Some (False, s)
      else Some (True, upgraded s v uid acc))"
    by blast
  have cnt: "descLocked s ! v = 0 \<longleftrightarrow> \<not> descLocked s ! v > 0"
    using i2 v by (simp add: I2_iff)
  have fr: "(\<exists>x. reach s v x \<and> foreign s uid x) \<longleftrightarrow>
      \<not> (\<forall>w \<in> set (lockedDescendants s v). lockedBy s ! w = uid)"
  proof -
    have "(\<exists>x. reach s v x \<and> foreign s uid x) \<longleftrightarrow>
        (\<exists>x \<in> {x. reach s v x \<and> locked s x}. lockedBy s ! x \<noteq> uid)"
      by (auto simp: foreign_def locked_def)
    then show ?thesis
      unfolding reach_locked_eq [OF wf i1 i2] set_lockedDescendants by blast
  qed
  show ?thesis
  proof (cases "locked s v \<or> (\<exists>a \<in> set (ancestors_of s v). locked s a) \<or> descLocked s ! v = 0 \<or>
         (\<exists>x. reach s v x \<and> foreign s uid x)")
    case True
    then show ?thesis unfolding up using cnt fr by auto
  next
    case False
    then have "set acc = set (lockedDescendants s v)"
      using st reach_locked_eq [OF wf i1 i2, of v] by (auto simp: set_lockedDescendants)
    then have "upgraded s v uid acc = upgraded s v uid (lockedDescendants s v)"
      using d by (intro upgraded_set_cong) simp_all
    with False show ?thesis unfolding up using cnt fr by auto
  qed
qed


text \<open>Every operation returns, and a call that returns false has changed nothing.\<close>

lemma lockNode_total:
  assumes "wellformed s" and "v < nat (n s)"
  shows "\<exists>b s'. lockNode s (int v) uid = Some (b, s') \<and> (\<not> b \<longrightarrow> s' = s)"
  unfolding lockNode_spec [OF assms] by auto

lemma unlockNode_total:
  assumes "wellformed s" and "v < nat (n s)"
  shows "\<exists>b s'. unlockNode s (int v) uid = Some (b, s') \<and> (\<not> b \<longrightarrow> s' = s)"
  unfolding unlockNode_spec [OF assms] by auto

lemma upgradeNode_total:
  assumes "wellformed s" and "v < nat (n s)"
  shows "\<exists>b s'. upgradeNode s (int v) uid = Some (b, s') \<and> (\<not> b \<longrightarrow> s' = s)"
proof -
  from upgradeNode_spec [OF assms, of uid] obtain acc where
    "upgradeNode s (int v) uid =
     (if locked s v \<or> (\<exists>a \<in> set (ancestors_of s v). locked s a) \<or> descLocked s ! v = 0 \<or>
         (\<exists>x. reach s v x \<and> foreign s uid x)
      then Some (False, s)
      else Some (True, upgraded s v uid acc))"
    by blast
  then show ?thesis by auto
qed

lemma process_query_total:
  assumes wf: "wellformed s" and q: "valid_query s q"
  shows "\<exists>b s'. process_query s q = Some (b, s') \<and> (\<not> b \<longrightarrow> s' = s)"
proof -
  obtain opc node_id uid where qq: "q = (opc, node_id, uid)" by (cases q) auto
  define v where "v = nat node_id"
  have opc: "opc = 1 \<or> opc = 2 \<or> opc = 3" and node: "node_id = int v" and v: "v < nat (n s)"
    using q by (auto simp: valid_query_def qq v_def)
  from opc show ?thesis
    using lockNode_total [OF wf v, of uid] unlockNode_total [OF wf v, of uid]
      upgradeNode_total [OF wf v, of uid]
    by (auto simp: qq node)
qed

section \<open>The operations of Song_M\<close>

lemma getPathToRoot_loop_root [simp]: "getPathToRoot_loop s (- 1) path = Some path"
  by (subst getPathToRoot_loop.simps) simp







lemma addToAncestors_loop_root [simp]: "addToAncestors_loop s (- 1) delta = Some s"
  by (subst addToAncestors_loop.simps) simp







lemma ReachM_Nil [simp]: "ReachM s [] = {}"
  by (simp add: ReachM_def)














section \<open>The invariant K and the agreement of the two traversals\<close>




















section \<open>Lock\<close>

text \<open>
  Claim C5, as the spec states it, says that for every caller id a successful \<open>Lock\<close>
  takes \<open>v\<close> from unlocked to locked by the caller. The code writes \<open>uid\<close> into
  \<open>lockedBy[v]\<close> without looking at it, and 0 is the value that means unlocked: in the
  fresh tree of seven nodes the three conditions hold at node 3, the call with the caller
  id 0 returns true and adds 1 to the counters of the ancestors 1 and 0, and node 3 is
  still unlocked afterwards.
\<close>

theorem lock_leaves_node_unlocked:
  "\<not> locked (tree7 [0, 0, 0, 0, 0, 0, 0] [0, 0, 0, 0, 0, 0, 0]) 3 \<and>
   \<not> locked (tree7 [0, 0, 0, 0, 0, 0, 0] [0, 0, 0, 0, 0, 0, 0]) 1 \<and>
   \<not> locked (tree7 [0, 0, 0, 0, 0, 0, 0] [0, 0, 0, 0, 0, 0, 0]) 0 \<and>
   descLocked (tree7 [0, 0, 0, 0, 0, 0, 0] [0, 0, 0, 0, 0, 0, 0]) ! 3 = 0 \<and>
   lockNode (tree7 [0, 0, 0, 0, 0, 0, 0] [0, 0, 0, 0, 0, 0, 0]) 3 0 =
     Some (True, tree7 [0, 0, 0, 0, 0, 0, 0] [1, 1, 0, 0, 0, 0, 0]) \<and>
   \<not> locked (tree7 [0, 0, 0, 0, 0, 0, 0] [1, 1, 0, 0, 0, 0, 0]) 3"
  by code_simp

text \<open>
  Claim C5, amended. In every well-formed state, for every node \<open>v\<close> and caller \<open>uid\<close>,
  \<open>Lock(v, uid)\<close> returns, and it returns true iff \<open>v\<close> is unlocked, no ancestor of
  \<open>v\<close> is locked and \<open>descLocked[v]\<close> is 0. On success \<open>lockedBy[v]\<close> is \<open>uid\<close> and
  the counter of every ancestor of \<open>v\<close> is one higher, so that \<open>v\<close> goes from unlocked
  to locked by \<open>uid\<close> when \<open>uid\<close> is not 0 and stays unlocked when \<open>uid\<close> is 0; on
  failure the state is unchanged.
\<close>

theorem lockNode_contract:
  assumes "wellformed s" and "v < nat (n s)"
  shows "\<exists>b s'. lockNode s (int v) uid = Some (b, s') \<and>
     (b \<longleftrightarrow> \<not> locked s v \<and> (\<forall>a \<in> set (ancestors_of s v). \<not> locked s a) \<and> descLocked s ! v = 0) \<and>
     (b \<longrightarrow> lockedBy s' ! v = uid \<and>
            (\<forall>a \<in> set (ancestors_of s v). descLocked s' ! a = descLocked s ! a + 1)) \<and>
     (b \<longrightarrow> (locked s' v \<longleftrightarrow> uid \<noteq> 0)) \<and>
     (\<not> b \<longrightarrow> s' = s)"
proof -
  have len: "length (lockedBy s) = nat (n s)" "length (descLocked s) = nat (n s)"
    using assms(1) by (simp_all add: wellformed_def)
  have anc: "a < length (descLocked s)" if "a \<in> set (ancestors_of s v)" for a
    using ancestors_of_less [OF that] assms(2) len by simp
  let ?blocked = "locked s v \<or> (\<exists>a \<in> set (ancestors_of s v). locked s a) \<or> descLocked s ! v \<noteq> 0"
  show ?thesis
  proof (cases ?blocked)
    case True
    then have "lockNode s (int v) uid = Some (False, s)"
      by (simp add: lockNode_spec [OF assms])
    with True show ?thesis by auto
  next
    case False
    let ?s' = "s\<lparr>lockedBy := (lockedBy s)[v := uid],
                  descLocked := add_at (ancestors_of s v) 1 (descLocked s)\<rparr>"
    from False have "lockNode s (int v) uid = Some (True, ?s')"
      by (simp add: lockNode_spec [OF assms])
    moreover have own: "lockedBy ?s' ! v = uid" using assms(2) len by simp
    moreover have "locked ?s' v \<longleftrightarrow> uid \<noteq> 0"
      unfolding locked_def own ..
    moreover have "\<forall>a \<in> set (ancestors_of s v). descLocked ?s' ! a = descLocked s ! a + 1"
      using anc by (simp add: nth_add_at)
    ultimately show ?thesis using False by auto
  qed
qed

theorem lockNode_contract_witness:
  "wellformed (tree7 [0, 0, 0, 0, 0, 0, 0] [0, 0, 0, 0, 0, 0, 0]) \<and>
   (3::nat) < nat (n (tree7 [0, 0, 0, 0, 0, 0, 0] [0, 0, 0, 0, 0, 0, 0])) \<and>
   (\<exists>s'. lockNode (tree7 [0, 0, 0, 0, 0, 0, 0] [0, 0, 0, 0, 0, 0, 0]) (int 3) 5 = Some (True, s') \<and>
         lockedBy s' ! 3 = 5 \<and> locked s' 3 \<and> descLocked s' ! 1 = 1 \<and> descLocked s' ! 0 = 1)"
proof -
  let ?s = "tree7 [0, 0, 0, 0, 0, 0, 0] [0, 0, 0, 0, 0, 0, 0]"
  have w: "wellformed ?s" by code_simp
  have v: "(3::nat) < nat (n ?s)" by (simp add: tree7_def)
  have a: "ancestors_of ?s 3 = [1, 0]" by code_simp
  have c: "\<not> locked ?s 3 \<and> (\<forall>a \<in> set (ancestors_of ?s 3). \<not> locked ?s a) \<and> descLocked ?s ! 3 = 0"
    unfolding a by (simp add: locked_def tree7_def)
  from lockNode_contract [OF w v, of 5] obtain b s' where
    r: "lockNode ?s (int 3) 5 = Some (b, s')"
    and b: "b \<longleftrightarrow> \<not> locked ?s 3 \<and> (\<forall>a \<in> set (ancestors_of ?s 3). \<not> locked ?s a) \<and> descLocked ?s ! 3 = 0"
    and e: "b \<longrightarrow> lockedBy s' ! 3 = 5 \<and>
            (\<forall>a \<in> set (ancestors_of ?s 3). descLocked s' ! a = descLocked ?s ! a + 1)"
    and k: "b \<longrightarrow> (locked s' 3 \<longleftrightarrow> (5::int) \<noteq> 0)"
    by blast
  from b c have "b" by simp
  with e k have "lockedBy s' ! 3 = 5" "locked s' 3" "descLocked s' ! 1 = 1" "descLocked s' ! 0 = 1"
    unfolding a by (simp_all add: tree7_def)
  with r \<open>b\<close> w v show ?thesis by auto
qed

section \<open>Unlock\<close>

text \<open>
  Claim C6, as the spec states it, says that unlocking an already-unlocked node fails for
  every caller. The code compares \<open>lockedBy[v]\<close> with \<open>uid\<close> and nothing else, so the
  caller id 0 owns every unlocked node: the call below succeeds on an unlocked node and
  takes the root's counter to -1.
\<close>

theorem unlock_unlocked_counterexample:
  "\<not> locked (tree3 [0, 0, 0] [0, 0, 0]) 1 \<and>
   unlockNode (tree3 [0, 0, 0] [0, 0, 0]) 1 0 = Some (True, tree3 [0, 0, 0] [- 1, 0, 0])"
  by code_simp

text \<open>
  Claim C6, amended. In every well-formed state, \<open>Unlock(v, uid)\<close> returns, and it returns
  true iff \<open>lockedBy[v] = uid\<close>. On success \<open>lockedBy[v]\<close> is 0 and the counter of every
  ancestor of \<open>v\<close> is one lower; on failure the state is unchanged. Unlocking an unlocked
  node fails for every caller id other than 0.
\<close>

theorem unlockNode_contract:
  assumes "wellformed s" and "v < nat (n s)"
  shows "\<exists>b s'. unlockNode s (int v) uid = Some (b, s') \<and>
     (b \<longleftrightarrow> lockedBy s ! v = uid) \<and>
     (b \<longrightarrow> lockedBy s' ! v = 0 \<and>
            (\<forall>a \<in> set (ancestors_of s v). descLocked s' ! a = descLocked s ! a - 1)) \<and>
     (\<not> b \<longrightarrow> s' = s) \<and>
     (uid \<noteq> 0 \<and> \<not> locked s v \<longrightarrow> \<not> b)"
proof -
  have len: "length (lockedBy s) = nat (n s)" "length (descLocked s) = nat (n s)"
    using assms(1) by (simp_all add: wellformed_def)
  have anc: "a < length (descLocked s)" if "a \<in> set (ancestors_of s v)" for a
    using ancestors_of_less [OF that] assms(2) len by simp
  show ?thesis
  proof (cases "lockedBy s ! v = uid")
    case False
    then have "unlockNode s (int v) uid = Some (False, s)"
      by (simp add: unlockNode_spec [OF assms])
    with False show ?thesis by auto
  next
    case True
    let ?s' = "s\<lparr>lockedBy := (lockedBy s)[v := 0],
                  descLocked := add_at (ancestors_of s v) (- 1) (descLocked s)\<rparr>"
    from True have "unlockNode s (int v) uid = Some (True, ?s')"
      by (simp add: unlockNode_spec [OF assms])
    moreover have "lockedBy ?s' ! v = 0" using assms(2) len by simp
    moreover have "\<forall>a \<in> set (ancestors_of s v). descLocked ?s' ! a = descLocked s ! a - 1"
      using anc by (simp add: nth_add_at)
    ultimately show ?thesis using True by (auto simp: locked_def)
  qed
qed

theorem unlockNode_contract_witness:
  "wellformed (tree7 [0, 0, 0, 5, 0, 0, 0] [1, 1, 0, 0, 0, 0, 0]) \<and>
   (3::nat) < nat (n (tree7 [0, 0, 0, 5, 0, 0, 0] [1, 1, 0, 0, 0, 0, 0])) \<and>
   (\<exists>s'. unlockNode (tree7 [0, 0, 0, 5, 0, 0, 0] [1, 1, 0, 0, 0, 0, 0]) (int 3) 5 = Some (True, s') \<and>
         lockedBy s' ! 3 = 0 \<and> descLocked s' ! 1 = 0 \<and> descLocked s' ! 0 = 0)"
proof -
  let ?s = "tree7 [0, 0, 0, 5, 0, 0, 0] [1, 1, 0, 0, 0, 0, 0]"
  have w: "wellformed ?s" by code_simp
  have v: "(3::nat) < nat (n ?s)" by (simp add: tree7_def)
  have a: "ancestors_of ?s 3 = [1, 0]" by code_simp
  have c: "lockedBy ?s ! 3 = 5" by (simp add: tree7_def)
  from unlockNode_contract [OF w v, of 5] obtain b s' where
    r: "unlockNode ?s (int 3) 5 = Some (b, s')"
    and b: "b \<longleftrightarrow> lockedBy ?s ! 3 = 5"
    and e: "b \<longrightarrow> lockedBy s' ! 3 = 0 \<and>
            (\<forall>a \<in> set (ancestors_of ?s 3). descLocked s' ! a = descLocked ?s ! a - 1)"
    by blast
  from b c have "b" by simp
  with e have "lockedBy s' ! 3 = 0" "descLocked s' ! 1 = 0" "descLocked s' ! 0 = 0"
    unfolding a by (simp_all add: tree7_def)
  with r \<open>b\<close> w v show ?thesis by auto
qed

section \<open>Lock with the sentinel as caller id\<close>

text \<open>
  Claim C7 says that \<open>Lock\<close> with an invalid caller id, in particular 0, yields false.
  The code never looks at the caller id: on a free node the call returns true, writes
  the owner 0 (the node stays unlocked) and increments the ancestors' counters.
\<close>

theorem lock_sentinel_counterexample:
  "lockNode (tree3 [0, 0, 0] [0, 0, 0]) 1 0 = Some (True, tree3 [0, 0, 0] [1, 0, 0])"
  by code_simp

text \<open>
  Claim C7, amended. In every well-formed state, \<open>Lock(v, uid)\<close> returns a boolean for
  every caller id, never an error. With the caller id 0 it returns true iff \<open>v\<close> is
  unlocked, no ancestor of \<open>v\<close> is locked and \<open>descLocked[v]\<close> is 0; the owners are
  then unchanged and the counter of every ancestor of \<open>v\<close> is one higher.
\<close>

theorem lockNode_any_caller:
  assumes "wellformed s" and "v < nat (n s)"
  shows "\<exists>b s'. lockNode s (int v) uid = Some (b, s') \<and>
     (uid = 0 \<longrightarrow>
        (b \<longleftrightarrow> \<not> locked s v \<and> (\<forall>a \<in> set (ancestors_of s v). \<not> locked s a) \<and> descLocked s ! v = 0) \<and>
        lockedBy s' = lockedBy s \<and>
        (b \<longrightarrow> (\<forall>a \<in> set (ancestors_of s v). descLocked s' ! a = descLocked s ! a + 1)))"
proof -
  have len: "length (lockedBy s) = nat (n s)" "length (descLocked s) = nat (n s)"
    using assms(1) by (simp_all add: wellformed_def)
  have anc: "a < length (descLocked s)" if "a \<in> set (ancestors_of s v)" for a
    using ancestors_of_less [OF that] assms(2) len by simp
  let ?blocked = "locked s v \<or> (\<exists>a \<in> set (ancestors_of s v). locked s a) \<or> descLocked s ! v \<noteq> 0"
  show ?thesis
  proof (cases ?blocked)
    case True
    then have "lockNode s (int v) uid = Some (False, s)"
      by (simp add: lockNode_spec [OF assms])
    with True show ?thesis by auto
  next
    case False
    let ?s' = "s\<lparr>lockedBy := (lockedBy s)[v := uid],
                  descLocked := add_at (ancestors_of s v) 1 (descLocked s)\<rparr>"
    from False have "lockNode s (int v) uid = Some (True, ?s')"
      by (simp add: lockNode_spec [OF assms])
    moreover have "uid = 0 \<longrightarrow> lockedBy ?s' = lockedBy s"
    proof
      assume "uid = 0"
      moreover from False have "lockedBy s ! v = 0" by (simp add: locked_def)
      ultimately show "lockedBy ?s' = lockedBy s"
        using list_update_id [of "lockedBy s" v] by simp
    qed
    moreover have "\<forall>a \<in> set (ancestors_of s v). descLocked ?s' ! a = descLocked s ! a + 1"
      using anc by (simp add: nth_add_at)
    ultimately show ?thesis using False by auto
  qed
qed

theorem lockNode_any_caller_witness:
  "wellformed (tree3 [0, 0, 0] [0, 0, 0]) \<and>
   (1::nat) < nat (n (tree3 [0, 0, 0] [0, 0, 0])) \<and>
   (\<exists>s'. lockNode (tree3 [0, 0, 0] [0, 0, 0]) (int 1) 0 = Some (True, s') \<and>
         lockedBy s' = [0, 0, 0] \<and> descLocked s' ! 0 = 1)"
proof -
  let ?s = "tree3 [0, 0, 0] [0, 0, 0]"
  have w: "wellformed ?s" by code_simp
  have v: "(1::nat) < nat (n ?s)" by (simp add: tree3_def)
  have a: "ancestors_of ?s 1 = [0]" by code_simp
  have c: "\<not> locked ?s 1 \<and> (\<forall>a \<in> set (ancestors_of ?s 1). \<not> locked ?s a) \<and> descLocked ?s ! 1 = 0"
    unfolding a by (simp add: locked_def tree3_def)
  from lockNode_any_caller [OF w v, of 0] obtain b s' where
    r: "lockNode ?s (int 1) 0 = Some (b, s')"
    and b: "b \<longleftrightarrow> \<not> locked ?s 1 \<and> (\<forall>a \<in> set (ancestors_of ?s 1). \<not> locked ?s a) \<and> descLocked ?s ! 1 = 0"
    and l: "lockedBy s' = lockedBy ?s"
    and e: "b \<longrightarrow> (\<forall>a \<in> set (ancestors_of ?s 1). descLocked s' ! a = descLocked ?s ! a + 1)"
    by blast
  from b c have "b" by simp
  with e l have "lockedBy s' = [0, 0, 0]" "descLocked s' ! 0 = 1"
    unfolding a by (simp_all add: tree3_def)
  with r \<open>b\<close> w v show ?thesis by auto
qed

section \<open>The frame of Lock and Unlock\<close>

text \<open>
  Claim C10. In every well-formed state, a \<open>Lock(v, uid)\<close> or \<open>Unlock(v, uid)\<close> call
  returns, and whatever it returns, the owner of every node \<open>w\<close> other than \<open>v\<close> and the
  counter of every node \<open>w\<close> that is not a proper ancestor of \<open>v\<close> are unchanged.
\<close>

theorem lock_unlock_frame:
  assumes "wellformed s" and "v < nat (n s)" and "w < nat (n s)"
  shows "(\<exists>b s'. lockNode s (int v) uid = Some (b, s') \<and>
            (w \<noteq> v \<longrightarrow> lockedBy s' ! w = lockedBy s ! w) \<and>
            (w \<notin> set (ancestors_of s v) \<longrightarrow> descLocked s' ! w = descLocked s ! w)) \<and>
         (\<exists>b s'. unlockNode s (int v) uid = Some (b, s') \<and>
            (w \<noteq> v \<longrightarrow> lockedBy s' ! w = lockedBy s ! w) \<and>
            (w \<notin> set (ancestors_of s v) \<longrightarrow> descLocked s' ! w = descLocked s ! w))"
proof -
  have len: "length (lockedBy s) = nat (n s)" "length (descLocked s) = nat (n s)"
    using assms(1) by (simp_all add: wellformed_def)
  show ?thesis
    using assms(3) len
    by (auto simp: lockNode_spec [OF assms(1,2)] unlockNode_spec [OF assms(1,2)] nth_add_at)
qed

theorem lock_unlock_frame_witness:
  "wellformed (tree7 [0, 0, 0, 0, 9, 0, 0] [1, 1, 0, 0, 0, 0, 0]) \<and>
   (3::nat) < nat (n (tree7 [0, 0, 0, 0, 9, 0, 0] [1, 1, 0, 0, 0, 0, 0])) \<and>
   (4::nat) < nat (n (tree7 [0, 0, 0, 0, 9, 0, 0] [1, 1, 0, 0, 0, 0, 0])) \<and>
   (\<exists>b s'. lockNode (tree7 [0, 0, 0, 0, 9, 0, 0] [1, 1, 0, 0, 0, 0, 0]) (int 3) 5 = Some (b, s') \<and>
         lockedBy s' ! 4 = 9 \<and> descLocked s' ! 4 = 0) \<and>
   (\<exists>b s'. unlockNode (tree7 [0, 0, 0, 0, 9, 0, 0] [1, 1, 0, 0, 0, 0, 0]) (int 3) 5 = Some (b, s') \<and>
         lockedBy s' ! 4 = 9 \<and> descLocked s' ! 4 = 0)"
proof -
  let ?s = "tree7 [0, 0, 0, 0, 9, 0, 0] [1, 1, 0, 0, 0, 0, 0]"
  have w: "wellformed ?s" by code_simp
  have v: "(3::nat) < nat (n ?s)" "(4::nat) < nat (n ?s)" by (simp_all add: tree7_def)
  have a: "ancestors_of ?s 3 = [1, 0]" by code_simp
  have c: "(4::nat) \<noteq> 3" "(4::nat) \<notin> set (ancestors_of ?s 3)"
    unfolding a by simp_all
  have d: "lockedBy ?s ! 4 = 9" "descLocked ?s ! 4 = 0" by (simp_all add: tree7_def)
  show ?thesis
    using lock_unlock_frame [OF w v, of 5] c d w v by auto
qed

section \<open>Mutual exclusion across the hierarchy\<close>

text \<open>
  Claim C1 allows an arbitrary caller id in the operations. No variant of the code checks
  the caller id, and 0 is also the mark of an unlocked node: \<open>Unlock(2, 0)\<close> on the
  unlocked node 2 succeeds and takes 1 from the root's counter, which hides the lock on
  node 1; \<open>Lock(0, 7)\<close> then succeeds, and node 1 and its parent 0 are both locked.
\<close>

theorem sentinel_breaks_mutual_exclusion:
  "newTreeLocker 3 2 = Some (tree3 [0, 0, 0] [0, 0, 0]) \<and>
   list_all (valid_query (tree3 [0, 0, 0] [0, 0, 0])) [(1, 1, 5), (2, 2, 0), (1, 0, 7)] \<and>
   process_queries (tree3 [0, 0, 0] [0, 0, 0]) [(1, 1, 5), (2, 2, 0), (1, 0, 7)] =
     Some ([True, True, True], tree3 [7, 5, 0] [0, 0, 0]) \<and>
   locked (tree3 [7, 5, 0] [0, 0, 0]) 1 \<and>
   0 \<in> set (ancestors_of (tree3 [7, 5, 0] [0, 0, 0]) 1) \<and>
   locked (tree3 [7, 5, 0] [0, 0, 0]) 0 \<and>
   \<not> I1 (tree3 [7, 5, 0] [0, 0, 0])"
  by code_simp

text \<open>
  Claim C1, amended. From the state that the constructor builds from \<open>(N, M)\<close> with
  \<open>M \<ge> 1\<close>, every finite sequence of Lock, Unlock and Upgrade operations, each with a
  node index in \<open>[0, N)\<close> and a caller id other than 0, runs to its end, and in the
  state it ends in no locked node has a locked ancestor or a locked descendant.
\<close>

theorem mutual_exclusion_reachable:
  assumes "newTreeLocker N M = Some s0" and "1 \<le> M"
    and "\<forall>q \<in> set qs. valid_query s0 q \<and> caller_of q \<noteq> 0"
  shows "\<exists>out s. process_queries s0 qs = Some (out, s) \<and> I1 s"
proof -
  from newTreeLocker_invariant [OF assms(1,2)]
  have "wellformed s0" "I1 s0" "I2 s0" by simp_all
  from process_queries_invariant [OF this assms(3)] show ?thesis by blast
qed

theorem mutual_exclusion_reachable_witness:
  "newTreeLocker 7 2 = Some (tree7 [0, 0, 0, 0, 0, 0, 0] [0, 0, 0, 0, 0, 0, 0]) \<and>
   (1::int) \<le> 2 \<and>
   list_all (\<lambda>q. valid_query (tree7 [0, 0, 0, 0, 0, 0, 0] [0, 0, 0, 0, 0, 0, 0]) q \<and> caller_of q \<noteq> 0)
     [(1, 3, 5), (1, 1, 9), (2, 3, 5), (1, 1, 9)] \<and>
   (\<exists>out s. process_queries (tree7 [0, 0, 0, 0, 0, 0, 0] [0, 0, 0, 0, 0, 0, 0])
        [(1, 3, 5), (1, 1, 9), (2, 3, 5), (1, 1, 9)] = Some (out, s) \<and> I1 s)"
proof -
  let ?s0 = "tree7 [0, 0, 0, 0, 0, 0, 0] [0, 0, 0, 0, 0, 0, 0]"
  let ?qs = "[(1, 3, 5), (1, 1, 9), (2, 3, 5), (1, 1, 9)] :: Query list"
  have a: "newTreeLocker 7 2 = Some ?s0" by code_simp
  have b: "(1::int) \<le> 2" by simp
  have c: "list_all (\<lambda>q. valid_query ?s0 q \<and> caller_of q \<noteq> 0) ?qs" by code_simp
  then have c': "\<forall>q \<in> set ?qs. valid_query ?s0 q \<and> caller_of q \<noteq> 0"
    by (simp only: list_all_iff)
  from mutual_exclusion_reachable [OF a b c'] a b c show ?thesis by blast
qed

section \<open>The counters\<close>

text \<open>
  Claim C2 allows an arbitrary caller id as well. \<open>Unlock(1, 0)\<close> in the initial state
  succeeds, because the owner 0 of the unlocked node 1 equals the caller id, and leaves
  the root with the counter -1 and no locked node below it.
\<close>

theorem sentinel_breaks_counters:
  "newTreeLocker 3 2 = Some (tree3 [0, 0, 0] [0, 0, 0]) \<and>
   list_all (valid_query (tree3 [0, 0, 0] [0, 0, 0])) [(2, 1, 0)] \<and>
   process_queries (tree3 [0, 0, 0] [0, 0, 0]) [(2, 1, 0)] =
     Some ([True], tree3 [0, 0, 0] [- 1, 0, 0]) \<and>
   descLocked (tree3 [0, 0, 0] [- 1, 0, 0]) ! 0 = - 1 \<and>
   lockedDescendants (tree3 [0, 0, 0] [- 1, 0, 0]) 0 = [] \<and>
   \<not> I2 (tree3 [0, 0, 0] [- 1, 0, 0])"
  by code_simp

text \<open>
  Claim C2, amended. From the state that the constructor builds from \<open>(N, M)\<close> with
  \<open>M \<ge> 1\<close>, every finite sequence of Lock, Unlock and Upgrade operations, each with a
  node index in \<open>[0, N)\<close> and a caller id other than 0, runs to its end, and in the
  state it ends in the counter of every node is the number of locked nodes strictly
  below it.
\<close>

theorem counters_exact_reachable:
  assumes "newTreeLocker N M = Some s0" and "1 \<le> M"
    and "\<forall>q \<in> set qs. valid_query s0 q \<and> caller_of q \<noteq> 0"
  shows "\<exists>out s. process_queries s0 qs = Some (out, s) \<and> I2 s"
proof -
  from newTreeLocker_invariant [OF assms(1,2)]
  have "wellformed s0" "I1 s0" "I2 s0" by simp_all
  from process_queries_invariant [OF this assms(3)] show ?thesis by blast
qed

theorem counters_exact_reachable_witness:
  "newTreeLocker 7 2 = Some (tree7 [0, 0, 0, 0, 0, 0, 0] [0, 0, 0, 0, 0, 0, 0]) \<and>
   (1::int) \<le> 2 \<and>
   list_all (\<lambda>q. valid_query (tree7 [0, 0, 0, 0, 0, 0, 0] [0, 0, 0, 0, 0, 0, 0]) q \<and> caller_of q \<noteq> 0)
     [(1, 3, 1), (1, 4, 1), (3, 1, 1)] \<and>
   (\<exists>out s. process_queries (tree7 [0, 0, 0, 0, 0, 0, 0] [0, 0, 0, 0, 0, 0, 0])
        [(1, 3, 1), (1, 4, 1), (3, 1, 1)] = Some (out, s) \<and> I2 s)"
proof -
  let ?s0 = "tree7 [0, 0, 0, 0, 0, 0, 0] [0, 0, 0, 0, 0, 0, 0]"
  let ?qs = "[(1, 3, 1), (1, 4, 1), (3, 1, 1)] :: Query list"
  have a: "newTreeLocker 7 2 = Some ?s0" by code_simp
  have b: "(1::int) \<le> 2" by simp
  have c: "list_all (\<lambda>q. valid_query ?s0 q \<and> caller_of q \<noteq> 0) ?qs" by code_simp
  then have c': "\<forall>q \<in> set ?qs. valid_query ?s0 q \<and> caller_of q \<noteq> 0"
    by (simp only: list_all_iff)
  from counters_exact_reachable [OF a b c'] a b c show ?thesis by blast
qed

section \<open>Upgrade\<close>

text \<open>
  Claim C3 speaks of every state. The traversal of \<open>upgradeNode\<close> trusts the counters, and
  calls with the caller id 0 lead to states whose counters are wrong (see C2): below,
  node 3 is locked by 9, the counter of its parent 1 is 0, and \<open>Upgrade(0, 5)\<close> returns
  true although a node below 0 is locked by another caller.
\<close>

theorem upgrade_misses_foreign_lock:
  "newTreeLocker 7 2 = Some (tree7 [0, 0, 0, 0, 0, 0, 0] [0, 0, 0, 0, 0, 0, 0]) \<and>
   process_queries (tree7 [0, 0, 0, 0, 0, 0, 0] [0, 0, 0, 0, 0, 0, 0])
       [(1, 3, 9), (2, 4, 0), (1, 2, 0)] =
     Some ([True, True, True], tree7 [0, 0, 0, 9, 0, 0, 0] [1, 0, 0, 0, 0, 0, 0]) \<and>
   upgradeNode (tree7 [0, 0, 0, 9, 0, 0, 0] [1, 0, 0, 0, 0, 0, 0]) 0 5 =
     Some (True, tree7 [5, 0, 0, 9, 0, 0, 0] [1, 0, 0, 0, 0, 0, 0]) \<and>
   lockedDescendants (tree7 [0, 0, 0, 9, 0, 0, 0] [1, 0, 0, 0, 0, 0, 0]) 0 = [3] \<and>
   lockedBy (tree7 [0, 0, 0, 9, 0, 0, 0] [1, 0, 0, 0, 0, 0, 0]) ! 3 \<noteq> 5"
  by code_simp

text \<open>
  Claim C3, amended. In every well-formed state that satisfies I1 and I2 (so in every
  state reached with caller ids other than 0), for every node \<open>v\<close> and caller \<open>uid\<close>,
  \<open>Upgrade(v, uid)\<close> returns, and it returns true iff \<open>v\<close> is unlocked, no ancestor of
  \<open>v\<close> is locked, \<open>descLocked[v] > 0\<close> and every locked node below \<open>v\<close> is locked by
  \<open>uid\<close>. On success the new state is \<open>upgraded\<close>: every locked descendant is unlocked
  and takes 1 from the counter of each of its ancestors, then \<open>v\<close> is owned by \<open>uid\<close> and
  adds 1 to the counter of each of its ancestors. On failure the state is unchanged.
\<close>

theorem upgradeNode_contract:
  assumes "wellformed s" and "I1 s" and "I2 s" and "v < nat (n s)"
  shows "\<exists>b s'. upgradeNode s (int v) uid = Some (b, s') \<and>
     (b \<longleftrightarrow> \<not> locked s v \<and> (\<forall>a \<in> set (ancestors_of s v). \<not> locked s a) \<and>
            descLocked s ! v > 0 \<and>
            (\<forall>w \<in> set (lockedDescendants s v). lockedBy s ! w = uid)) \<and>
     (b \<longrightarrow> s' = upgraded s v uid (lockedDescendants s v)) \<and>
     (\<not> b \<longrightarrow> s' = s)"
  unfolding upgradeNode_inv_spec [OF assms] by auto

theorem upgradeNode_contract_witness:
  "wellformed (tree7 [0, 0, 0, 1, 1, 0, 0] [2, 2, 0, 0, 0, 0, 0]) \<and>
   I1 (tree7 [0, 0, 0, 1, 1, 0, 0] [2, 2, 0, 0, 0, 0, 0]) \<and>
   I2 (tree7 [0, 0, 0, 1, 1, 0, 0] [2, 2, 0, 0, 0, 0, 0]) \<and>
   (1::nat) < nat (n (tree7 [0, 0, 0, 1, 1, 0, 0] [2, 2, 0, 0, 0, 0, 0])) \<and>
   upgradeNode (tree7 [0, 0, 0, 1, 1, 0, 0] [2, 2, 0, 0, 0, 0, 0]) (int 1) 1 =
     Some (True, tree7 [0, 1, 0, 0, 0, 0, 0] [1, 0, 0, 0, 0, 0, 0])"
proof -
  let ?s = "tree7 [0, 0, 0, 1, 1, 0, 0] [2, 2, 0, 0, 0, 0, 0]"
  have h: "wellformed ?s" "I1 ?s" "I2 ?s" by code_simp+
  have v: "(1::nat) < nat (n ?s)" by (simp add: tree7_def)
  have c: "\<not> locked ?s 1 \<and> (\<forall>a \<in> set (ancestors_of ?s 1). \<not> locked ?s a) \<and>
            descLocked ?s ! 1 > 0 \<and> (\<forall>w \<in> set (lockedDescendants ?s 1). lockedBy ?s ! w = 1)"
    by code_simp
  have u: "upgraded ?s 1 1 (lockedDescendants ?s 1) = tree7 [0, 1, 0, 0, 0, 0, 0] [1, 0, 0, 0, 0, 0, 0]"
    by code_simp
  from upgradeNode_contract [OF h v, of 1] c u
  have "upgradeNode ?s (int 1) 1 = Some (True, tree7 [0, 1, 0, 0, 0, 0, 0] [1, 0, 0, 0, 0, 0, 0])"
    by auto
  with h v show ?thesis by simp
qed

section \<open>Atomicity\<close>

text \<open>
  Claim C4 speaks of any \<open>Upgrade\<close> call. In the state below, reached with calls whose
  caller id is 0, node 3 is locked by 5 and the counter of its parent is 0:
  \<open>Upgrade(0, 5)\<close> returns true and locks node 0, the state changes, and node 3, a
  locked descendant of 0 before the call, is still locked after it.
\<close>

theorem upgrade_leaves_descendant_locked:
  "newTreeLocker 7 2 = Some (tree7 [0, 0, 0, 0, 0, 0, 0] [0, 0, 0, 0, 0, 0, 0]) \<and>
   process_queries (tree7 [0, 0, 0, 0, 0, 0, 0] [0, 0, 0, 0, 0, 0, 0])
       [(1, 3, 5), (2, 4, 0), (1, 2, 0)] =
     Some ([True, True, True], tree7 [0, 0, 0, 5, 0, 0, 0] [1, 0, 0, 0, 0, 0, 0]) \<and>
   upgradeNode (tree7 [0, 0, 0, 5, 0, 0, 0] [1, 0, 0, 0, 0, 0, 0]) 0 5 =
     Some (True, tree7 [5, 0, 0, 5, 0, 0, 0] [1, 0, 0, 0, 0, 0, 0]) \<and>
   lockedDescendants (tree7 [0, 0, 0, 5, 0, 0, 0] [1, 0, 0, 0, 0, 0, 0]) 0 = [3] \<and>
   locked (tree7 [5, 0, 0, 5, 0, 0, 0] [1, 0, 0, 0, 0, 0, 0]) 3 \<and>
   tree7 [5, 0, 0, 5, 0, 0, 0] [1, 0, 0, 0, 0, 0, 0] \<noteq> tree7 [0, 0, 0, 5, 0, 0, 0] [1, 0, 0, 0, 0, 0, 0]"
  by code_simp

text \<open>
  Claim C4, amended. In every well-formed state, each of \<open>Lock\<close>, \<open>Unlock\<close> and
  \<open>Upgrade\<close> returns, and a call that returns false leaves the whole state unchanged.
  If the state satisfies I1 and I2, then after \<open>Upgrade(v, uid)\<close> either the state is
  the one before the call, or \<open>v\<close> is locked by \<open>uid\<close> and every node that was a
  locked descendant of \<open>v\<close> is unlocked.
\<close>

theorem upgrade_atomic:
  assumes "wellformed s" and "v < nat (n s)"
  shows "(\<exists>b s'. upgradeNode s (int v) uid = Some (b, s') \<and> (\<not> b \<longrightarrow> s' = s) \<and>
            (I1 s \<and> I2 s \<longrightarrow>
               s' = s \<or>
               (lockedBy s' ! v = uid \<and> locked s' v \<and>
                (\<forall>w \<in> set (lockedDescendants s v). \<not> locked s' w)))) \<and>
         (\<exists>b s'. lockNode s (int v) uid = Some (b, s') \<and> (\<not> b \<longrightarrow> s' = s)) \<and>
         (\<exists>b s'. unlockNode s (int v) uid = Some (b, s') \<and> (\<not> b \<longrightarrow> s' = s))"
proof -
  have len: "length (lockedBy s) = nat (n s)"
    using assms(1) by (simp add: wellformed_def)
  from upgradeNode_total [OF assms, of uid] obtain b s' where
    r: "upgradeNode s (int v) uid = Some (b, s')" and f: "\<not> b \<longrightarrow> s' = s"
    by blast
  have "s' = s \<or>
      (lockedBy s' ! v = uid \<and> locked s' v \<and> (\<forall>w \<in> set (lockedDescendants s v). \<not> locked s' w))"
    if inv: "I1 s" "I2 s"
  proof (cases b)
    case False
    with f show ?thesis by simp
  next
    case True
    let ?D = "lockedDescendants s v"
    from r True upgradeNode_inv_spec [OF assms(1) inv assms(2), of uid]
    have s': "s' = upgraded s v uid ?D"
      and pos: "descLocked s ! v > 0"
      and own: "\<forall>w \<in> set ?D. lockedBy s ! w = uid"
      by (auto split: if_splits)
    from pos inv(2) assms(2) have "0 < card (locked_below s v)" by (simp add: I2_iff)
    then have "locked_below s v \<noteq> {}" by (simp add: card_gt_0_iff)
    then obtain w where w: "w \<in> locked_below s v" by blast
    then have "locked s w" "lockedBy s ! w = uid"
      using own by (simp_all add: locked_below_def set_lockedDescendants)
    then have uid: "uid \<noteq> 0" by (auto simp: locked_def)
    have lv: "lockedBy s' ! v = uid"
      using assms(2) len by (simp add: s' upgraded_def)
    have "\<not> locked s' x" if "x \<in> set ?D" for x
    proof -
      from that have x: "x < nat (n s)" "v \<in> set (ancestors_of s x)"
        by (simp_all add: set_lockedDescendants locked_below_def)
      then have "x \<noteq> v" using not_in_own_ancestors [of v s] by auto
      with x(1) that len show ?thesis
        by (simp add: s' upgraded_def locked_def nth_unlock_at)
    qed
    with lv uid show ?thesis by (simp add: locked_def)
  qed
  with r f lockNode_total [OF assms, of uid] unlockNode_total [OF assms, of uid]
  show ?thesis by blast
qed

theorem upgrade_atomic_witness:
  "wellformed (tree7 [0, 0, 0, 1, 1, 0, 0] [2, 2, 0, 0, 0, 0, 0]) \<and>
   (1::nat) < nat (n (tree7 [0, 0, 0, 1, 1, 0, 0] [2, 2, 0, 0, 0, 0, 0])) \<and>
   I1 (tree7 [0, 0, 0, 1, 1, 0, 0] [2, 2, 0, 0, 0, 0, 0]) \<and>
   I2 (tree7 [0, 0, 0, 1, 1, 0, 0] [2, 2, 0, 0, 0, 0, 0]) \<and>
   (\<exists>s'. upgradeNode (tree7 [0, 0, 0, 1, 1, 0, 0] [2, 2, 0, 0, 0, 0, 0]) (int 1) 1 = Some (True, s') \<and>
      lockedBy s' ! 1 = 1 \<and> \<not> locked s' 3 \<and> \<not> locked s' 4) \<and>
   (\<exists>s'. lockNode (tree7 [0, 0, 0, 1, 1, 0, 0] [2, 2, 0, 0, 0, 0, 0]) (int 1) 2 = Some (False, s') \<and>
      s' = tree7 [0, 0, 0, 1, 1, 0, 0] [2, 2, 0, 0, 0, 0, 0])"
proof -
  let ?s = "tree7 [0, 0, 0, 1, 1, 0, 0] [2, 2, 0, 0, 0, 0, 0]"
  have h: "wellformed ?s" "(1::nat) < nat (n ?s)" and i: "I1 ?s" "I2 ?s" by code_simp+
  have d: "lockedDescendants ?s 1 = [3, 4]" by code_simp
  have e1: "upgradeNode ?s (int 1) 1 = Some (True, tree7 [0, 1, 0, 0, 0, 0, 0] [1, 0, 0, 0, 0, 0, 0])"
    "tree7 [0, 1, 0, 0, 0, 0, 0] [1, 0, 0, 0, 0, 0, 0] \<noteq> ?s"
    by code_simp+
  have e2: "lockNode ?s (int 1) 2 = Some (False, ?s)" by code_simp
  from upgrade_atomic [OF h, of 1] obtain b s' where
    "upgradeNode ?s (int 1) 1 = Some (b, s')"
    "I1 ?s \<and> I2 ?s \<longrightarrow> s' = ?s \<or>
       (lockedBy s' ! 1 = 1 \<and> locked s' 1 \<and> (\<forall>w \<in> set (lockedDescendants ?s 1). \<not> locked s' w))"
    by blast
  with e1 i d have u: "\<exists>s'. upgradeNode ?s (int 1) 1 = Some (True, s') \<and>
      lockedBy s' ! 1 = 1 \<and> \<not> locked s' 3 \<and> \<not> locked s' 4"
    by auto
  from upgrade_atomic [OF h, of 2] obtain b s' where
    "lockNode ?s (int 1) 2 = Some (b, s')" "\<not> b \<longrightarrow> s' = ?s"
    by blast
  with e2 have l: "\<exists>s'. lockNode ?s (int 1) 2 = Some (False, s') \<and> s' = ?s" by auto
  from h i u l show ?thesis by blast
qed

section \<open>Idempotent failure\<close>

text \<open>
  Claim C9. In every well-formed state \<open>s\<close>, for every operation (Lock, Unlock or
  Upgrade), node and caller: the call returns, and if it returns false then the state
  after it is \<open>s\<close> and the same call repeated at once returns false again and leaves
  \<open>s\<close>.
\<close>

theorem failure_idempotent:
  assumes "wellformed s" and "valid_query s q"
  shows "\<exists>b s'. process_query s q = Some (b, s') \<and>
           (\<not> b \<longrightarrow> s' = s \<and> process_query s' q = Some (False, s))"
  using process_query_total [OF assms] by auto

theorem failure_idempotent_witness:
  "wellformed (tree7 [0, 0, 0, 5, 0, 0, 0] [1, 1, 0, 0, 0, 0, 0]) \<and>
   valid_query (tree7 [0, 0, 0, 5, 0, 0, 0] [1, 1, 0, 0, 0, 0, 0]) (3, 1, 2) \<and>
   process_query (tree7 [0, 0, 0, 5, 0, 0, 0] [1, 1, 0, 0, 0, 0, 0]) (3, 1, 2) =
     Some (False, tree7 [0, 0, 0, 5, 0, 0, 0] [1, 1, 0, 0, 0, 0, 0])"
proof -
  let ?s = "tree7 [0, 0, 0, 5, 0, 0, 0] [1, 1, 0, 0, 0, 0, 0]"
  have h: "wellformed ?s" "valid_query ?s (3, 1, 2)" by code_simp+
  have e: "process_query ?s (3, 1, 2) = Some (False, ?s)" by code_simp
  from failure_idempotent [OF h] obtain b s' where
    "process_query ?s (3, 1, 2) = Some (b, s')"
    "\<not> b \<longrightarrow> s' = ?s \<and> process_query s' (3, 1, 2) = Some (False, ?s)"
    by blast
  with e have "process_query ?s (3, 1, 2) = Some (False, ?s)" by auto
  with h show ?thesis by simp
qed

section \<open>The two implementations agree\<close>



end
